theory Spec2Isabelle
  imports Main "HOL-Library.Multiset" "HOL-Library.Sublist"
begin

section \<open>Enhanced list view: grouping, property resolution and text formatting\<close>

text \<open>
  A shallow embedding of the class \<open>EnhancedListBasesView\<close>, in the revision that
  nests the plugin groups under the native groups of the host and strips inline
  references. The other revision of the file has the same \<open>groupEntriesByProperty\<close>,
  \<open>getTags\<close>, \<open>formatRelativeDate\<close> and \<open>truncateToLines\<close>.

  A JavaScript string is a sequence of code units and the regular expressions of the
  source have no \<open>u\<close> flag, so they work on code units. A string is modelled as a
  \<open>string\<close>, one \<open>char\<close> for each code unit; the model therefore covers the strings
  whose code units are below 256.
\<close>

subsection \<open>Inline references: \<open>stripWikilinks\<close>\<close>

text \<open>
  The source is
  \<^verbatim>\<open>str.replace(/\[\[([^\]]+?)(?:\|([^\]]+))?\]\]/g, (_match, link, alias) => alias ?? link)\<close>.

  Neither group can contain a closing bracket, so a match that starts at some position is
  the two opening brackets, the text \<open>X\<close> up to the next closing bracket, which must not be
  empty, and two closing brackets. \<open>wikilink_at\<close> returns \<open>X\<close> and the text after the
  match when the string starts with one.
\<close>

definition wikilink_at :: "string \<Rightarrow> (string \<times> string) option" where
  "wikilink_at s =
     (case s of
        a # b # t \<Rightarrow>
          if a = CHR ''['' \<and> b = CHR ''['' then
            (let X = takeWhile (\<lambda>c. c \<noteq> CHR '']'') t;
                 r = dropWhile (\<lambda>c. c \<noteq> CHR '']'') t
             in if X = [] then None
                else (case r of
                        c # d # rest \<Rightarrow>
                          if c = CHR '']'' \<and> d = CHR '']'' then Some (X, rest) else None
                      | _ \<Rightarrow> None))
          else None
      | _ \<Rightarrow> None)"

text \<open>
  The first group is lazy and has at least one character: it ends before the first bar
  that is not the first character of \<open>X\<close> and that has a non-empty rest (the second group
  is greedy and takes all of it). \<open>find_alias\<close> looks for that bar from the second
  character of \<open>X\<close> on; without it the first group is the whole of \<open>X\<close> and the second
  group is undefined.
\<close>

fun find_alias :: "string \<Rightarrow> string option" where
  "find_alias [] = None"
| "find_alias (c # t) = (if c = CHR ''|'' \<and> t \<noteq> [] then Some t else find_alias t)"

definition link_display :: "string \<Rightarrow> string" where
  \<comment> \<open>\<open>alias ?? link\<close>\<close>
  "link_display X = (case find_alias (tl X) of Some alias \<Rightarrow> alias | None \<Rightarrow> X)"

lemma wikilink_at_shorter:
  assumes "wikilink_at s = Some (X, rest)"
  shows "length rest < length s"
proof -
  from assms obtain t where s: "s = CHR ''['' # CHR ''['' # t"
    by (auto simp: wikilink_at_def split: list.splits if_splits)
  from assms s obtain c d where
    "dropWhile (\<lambda>c. c \<noteq> CHR '']'') t = c # d # rest"
    by (auto simp: wikilink_at_def Let_def split: list.splits if_splits)
  then have "length rest < length (dropWhile (\<lambda>c. c \<noteq> CHR '']'') t)"
    by simp
  also have "\<dots> \<le> length t"
    by (rule length_dropWhile_le)
  finally show ?thesis
    using s by simp
qed

text \<open>
  The global replacement scans from the left: at the leftmost position where a match
  starts the match is replaced and the scan goes on after it; any other character is
  copied.
\<close>

function stripWikilinks :: "string \<Rightarrow> string" where
  "stripWikilinks [] = []"
| "stripWikilinks (c # t) =
     (case wikilink_at (c # t) of
        Some (X, rest) \<Rightarrow> link_display X @ stripWikilinks rest
      | None \<Rightarrow> c # stripWikilinks t)"
  by pat_completeness auto
termination
  by (relation "measure length") (auto dest: wikilink_at_shorter)

text \<open>
  Two auxiliary notions for stating properties of the scan: the display texts that the
  scan substitutes, in order, and the strings in which no match starts anywhere.
\<close>

function link_displays :: "string \<Rightarrow> string list" where
  "link_displays [] = []"
| "link_displays (c # t) =
     (case wikilink_at (c # t) of
        Some (X, rest) \<Rightarrow> link_display X # link_displays rest
      | None \<Rightarrow> link_displays t)"
  by pat_completeness auto
termination
  by (relation "measure length") (auto dest: wikilink_at_shorter)

fun no_wikilink :: "string \<Rightarrow> bool" where
  "no_wikilink [] = True"
| "no_wikilink (c # t) = (wikilink_at (c # t) = None \<and> no_wikilink t)"

definition closes :: "string \<Rightarrow> bool" where
  "closes r = (case r of c # d # _ \<Rightarrow> c = CHR '']'' \<and> d = CHR '']'' | _ \<Rightarrow> False)"

abbreviation notclose :: "char \<Rightarrow> bool" where
  "notclose \<equiv> (\<lambda>c. c \<noteq> CHR '']'')"

subsection \<open>JavaScript values\<close>

text \<open>
  The values that reach the resolver: what \<open>entry.getValue\<close> returns and what a parsed
  frontmatter holds. \<open>JObj s\<close> is an object other than an array (a Bases \<open>Value\<close>, a
  plain object) whose \<open>toString()\<close> returns \<open>s\<close>. Numbers are the integers; the
  string of a number that is not an integer is not modelled. Symbols, big integers,
  functions and objects without a callable \<open>toString\<close> are left out.
\<close>

datatype jsvalue =
    JNull
  | JUndefined
  | JBool bool
  | JNum int
  | JStr string
  | JArr "jsvalue list"
  | JObj string

datatype jstype = TObject | TUndefined | TBoolean | TNumber | TString

fun typeof :: "jsvalue \<Rightarrow> jstype" where
  "typeof JNull = TObject"
| "typeof JUndefined = TUndefined"
| "typeof (JBool _) = TBoolean"
| "typeof (JNum _) = TNumber"
| "typeof (JStr _) = TString"
| "typeof (JArr _) = TObject"
| "typeof (JObj _) = TObject"

fun isArray :: "jsvalue \<Rightarrow> bool" where
  "isArray (JArr _) = True"
| "isArray _ = False"

fun truthy :: "jsvalue \<Rightarrow> bool" where
  "truthy JNull = False"
| "truthy JUndefined = False"
| "truthy (JBool b) = b"
| "truthy (JNum n) = (n \<noteq> 0)"
| "truthy (JStr s) = (s \<noteq> [])"
| "truthy (JArr _) = True"
| "truthy (JObj _) = True"

text \<open>The decimal string of an integer, as \<open>String(n)\<close> and a template literal give it.\<close>

fun digits :: "nat \<Rightarrow> string" where
  "digits n =
     (if n < 10 then [''0123456789'' ! n]
      else digits (n div 10) @ [''0123456789'' ! (n mod 10)])"

declare digits.simps [simp del]

definition numberToString :: "int \<Rightarrow> string" where
  "numberToString i = (if i < 0 then CHR ''-'' # digits (nat (- i)) else digits (nat i))"

fun join :: "string \<Rightarrow> string list \<Rightarrow> string" where
  "join sep [] = []"
| "join sep [x] = x"
| "join sep (x # y # ys) = x @ sep @ join sep (y # ys)"

text \<open>
  \<open>String(value)\<close>; for a value that is neither null nor undefined it is also what
  \<open>value.toString()\<close> returns. An array joins its elements with a comma, null and
  undefined elements giving the empty string.
\<close>

fun toString :: "jsvalue \<Rightarrow> string" where
  "toString JNull = ''null''"
| "toString JUndefined = ''undefined''"
| "toString (JBool b) = (if b then ''true'' else ''false'')"
| "toString (JNum n) = numberToString n"
| "toString (JStr s) = s"
| "toString (JArr vs) =
     join '','' (map (\<lambda>v. if v = JNull \<or> v = JUndefined then [] else toString v) vs)"
| "toString (JObj s) = s"

subsection \<open>Group keys: \<open>valueToGroupString\<close>\<close>

text \<open>
  The branches are in the order of the source. Every object of the model, an array too, has
  a \<open>toString\<close> function, so the second branch takes the arrays and the branch for
  \<open>Array.isArray\<close> is never reached.
\<close>

fun valueToGroupString :: "jsvalue \<Rightarrow> string" where
  "valueToGroupString v =
     (if v = JNull \<or> v = JUndefined then ''None''
      else if typeof v = TObject then
        (let str = toString v
         in if str = [] \<or> str = ''null'' \<or> str = ''undefined'' then ''None''
            else stripWikilinks str)
      else if typeof v = TString then
        (let r = stripWikilinks (toString v) in if r = [] then ''None'' else r)
      else if typeof v = TNumber then toString v
      else if typeof v = TBoolean then (if v = JBool True then ''True'' else ''False'')
      else if isArray v then
        (case v of
           JArr vs \<Rightarrow>
             if vs \<noteq> [] then join '', '' (map valueToGroupString vs) else ''None''
         | _ \<Rightarrow> toString v)
      else toString v)"

declare valueToGroupString.simps [simp del]

subsection \<open>Entries and the metadata cache\<close>

text \<open>
  An entry as the view reads it. \<open>getValue\<close> is the accessor \<open>entry.getValue(id)\<close>, which
  returns a value or null, or throws. \<open>parentName\<close> is \<open>entry.file.parent?.name\<close>:
  \<open>None\<close> where the file has no parent. \<open>fileCache\<close> is what
  \<open>app.metadataCache.getFileCache(entry.file)\<close> returns (\<open>None\<close> for null): its
  \<open>frontmatter\<close> (the own properties of the object, when there is one) and the \<open>tag\<close>
  fields of its inline \<open>tags\<close>.
\<close>

datatype accessor = Throws | Returns jsvalue

record cache =
  frontmatter :: "(string \<rightharpoonup> jsvalue) option"
  tags :: "string list option"

record entry =
  path :: string
  getValue :: "string \<Rightarrow> accessor"
  parentName :: "string option"
  fileCache :: "cache option"

definition startsWith :: "string \<Rightarrow> string \<Rightarrow> bool" where
  "startsWith s p = (take (length p) s = p)"

text \<open>\<open>cache?.frontmatter && propName in cache.frontmatter\<close>, then
  \<open>cache.frontmatter[propName]\<close>: \<open>None\<close> where the test fails.\<close>

definition frontmatterValue :: "entry \<Rightarrow> string \<Rightarrow> jsvalue option" where
  "frontmatterValue e propName =
     (case fileCache e of
        None \<Rightarrow> None
      | Some c \<Rightarrow> (case frontmatter c of None \<Rightarrow> None | Some fm \<Rightarrow> fm propName))"

subsection \<open>Property resolution for grouping: \<open>getPropertyValueAsString\<close>\<close>

text \<open>The \<open>try\<close> block: \<open>Some\<close> of what it returns, \<open>None\<close> where control leaves it
  (the accessor threw, or its value is falsy).\<close>

definition groupAccessorStep :: "entry \<Rightarrow> string \<Rightarrow> string option" where
  "groupAccessorStep e propertyId =
     (case getValue e propertyId of
        Throws \<Rightarrow> None
      | Returns value \<Rightarrow> if truthy value then Some (valueToGroupString value) else None)"

definition groupFrontmatterStep :: "entry \<Rightarrow> string \<Rightarrow> string option" where
  "groupFrontmatterStep e propertyId =
     (if startsWith propertyId ''note.'' then
        (let propName = drop 5 propertyId
         in case frontmatterValue e propName of
              Some value \<Rightarrow> Some (valueToGroupString value)
            | None \<Rightarrow> None)
      else None)"

definition getPropertyValueAsString :: "entry \<Rightarrow> string \<Rightarrow> string" where
  "getPropertyValueAsString e propertyId =
     (case groupAccessorStep e propertyId of
        Some r \<Rightarrow> r
      | None \<Rightarrow>
          (case groupFrontmatterStep e propertyId of
             Some r \<Rightarrow> r
           | None \<Rightarrow>
               if propertyId = ''file.folder'' then
                 (case parentName e of
                    Some n \<Rightarrow> if n \<noteq> [] then n else ''Root''
                  | None \<Rightarrow> ''Root'')
               else ''None''))"

subsection \<open>Property resolution for the subtitle: \<open>getSubtitleText\<close>\<close>

definition SUBTITLE_PARENT_FOLDER :: string where
  "SUBTITLE_PARENT_FOLDER = ''file.folder''"

definition subtitleAccessorStep :: "entry \<Rightarrow> string \<Rightarrow> string option" where
  "subtitleAccessorStep e subtitleProperty =
     (case getValue e subtitleProperty of
        Throws \<Rightarrow> None
      | Returns value \<Rightarrow>
          if truthy value then
            (let valueStr = toString value
             in if valueStr \<noteq> [] \<and> valueStr \<noteq> ''null'' \<and> valueStr \<noteq> ''undefined''
                then Some (stripWikilinks valueStr) else None)
          else None)"

definition subtitleFrontmatterStep :: "entry \<Rightarrow> string \<Rightarrow> string option" where
  "subtitleFrontmatterStep e subtitleProperty =
     (if startsWith subtitleProperty ''note.'' then
        (let propName = drop 5 subtitleProperty
         in case frontmatterValue e propName of
              Some value \<Rightarrow>
                if value \<noteq> JNull \<and> value \<noteq> JUndefined
                then Some (stripWikilinks (toString value)) else None
            | None \<Rightarrow> None)
      else None)"

text \<open>The result is \<open>None\<close> for null.\<close>

definition getSubtitleText :: "entry \<Rightarrow> string \<Rightarrow> string option" where
  "getSubtitleText e subtitleProperty =
     (if subtitleProperty = ''file.folder'' \<or> subtitleProperty = SUBTITLE_PARENT_FOLDER then
        (case parentName e of
           Some n \<Rightarrow> if n \<noteq> [] then Some n else None
         | None \<Rightarrow> None)
      else
        (case subtitleAccessorStep e subtitleProperty of
           Some r \<Rightarrow> Some r
         | None \<Rightarrow> subtitleFrontmatterStep e subtitleProperty))"

subsection \<open>Grouping: \<open>groupEntriesByProperty\<close>\<close>

text \<open>
  A \<open>Map\<close> iterates in the order in which its keys were first set, so it is modelled as
  an association list in that order. \<open>mapHas\<close>, \<open>mapSet\<close> and \<open>mapPush\<close> are
  \<open>groups.has(k)\<close>, \<open>groups.set(k, v)\<close> and \<open>groups.get(k)!.push(e)\<close>.
\<close>

type_synonym 'v jsmap = "(string \<times> 'v) list"

definition mapHas :: "'v jsmap \<Rightarrow> string \<Rightarrow> bool" where
  "mapHas m k = (k \<in> set (map fst m))"

definition mapSet :: "'v jsmap \<Rightarrow> string \<Rightarrow> 'v \<Rightarrow> 'v jsmap" where
  "mapSet m k v =
     (if mapHas m k then map (\<lambda>(k', v'). if k' = k then (k', v) else (k', v')) m
      else m @ [(k, v)])"

definition mapPush :: "'a list jsmap \<Rightarrow> string \<Rightarrow> 'a \<Rightarrow> 'a list jsmap" where
  "mapPush m k x = map (\<lambda>(k', b). if k' = k then (k', b @ [x]) else (k', b)) m"

text \<open>The body of the loop, and the loop over the entries.\<close>

definition groupStep :: "string \<Rightarrow> entry list jsmap \<Rightarrow> entry \<Rightarrow> entry list jsmap" where
  "groupStep propertyId groups e =
     (let groupKey = getPropertyValueAsString e propertyId;
          groups' = (if \<not> mapHas groups groupKey then mapSet groups groupKey [] else groups)
      in mapPush groups' groupKey e)"

definition groupEntriesByProperty :: "entry list \<Rightarrow> string \<Rightarrow> entry list jsmap" where
  "groupEntriesByProperty entries propertyId = foldl (groupStep propertyId) [] entries"

subsection \<open>Tags: \<open>getTags\<close>\<close>

text \<open>
  The local array \<open>tags\<close> (here \<open>acc\<close>) holds what the frontmatter gives, which need
  not be strings, so it is a list of values; \<open>tags.includes(tag)\<close> for a string \<open>tag\<close>
  is membership of \<open>JStr tag\<close>.
\<close>

definition frontmatterTags :: "entry \<Rightarrow> jsvalue list" where
  "frontmatterTags e =
     (case frontmatterValue e ''tags'' of
        None \<Rightarrow> []
      | Some fmTags \<Rightarrow>
          if truthy fmTags then
            (case fmTags of JArr vs \<Rightarrow> vs | JStr s \<Rightarrow> [JStr s] | _ \<Rightarrow> [])
          else [])"

definition inlineTag :: "string \<Rightarrow> string" where
  "inlineTag t = (if startsWith t ''#'' then drop 1 t else t)"

definition tagStep :: "jsvalue list \<Rightarrow> string \<Rightarrow> jsvalue list" where
  "tagStep acc t =
     (let tag = inlineTag t in if JStr tag \<notin> set acc then acc @ [JStr tag] else acc)"

definition getTags :: "entry \<Rightarrow> jsvalue list" where
  "getTags e =
     (let tags0 = frontmatterTags e
      in case fileCache e of
           None \<Rightarrow> tags0
         | Some c \<Rightarrow> (case tags c of None \<Rightarrow> tags0 | Some ts \<Rightarrow> foldl tagStep tags0 ts))"

subsection \<open>Relative dates: \<open>formatRelativeDate\<close>\<close>

text \<open>
  \<open>Date.now()\<close> is the first argument. Timestamps are whole milliseconds, so the numbers
  are integers and \<open>Math.floor(a / b)\<close> is \<open>a div b\<close>, which rounds down also for a
  negative difference.
\<close>

definition formatRelativeDate :: "int \<Rightarrow> int \<Rightarrow> string" where
  "formatRelativeDate now timestamp =
     (let diff = now - timestamp;
          seconds = diff div 1000;
          minutes = seconds div 60;
          hours = minutes div 60;
          days = hours div 24
      in if days = 0 then
           (if hours = 0 then
              (if minutes = 0 then ''Just now'' else numberToString minutes @ ''m ago'')
            else numberToString hours @ ''h ago'')
         else if days = 1 then ''Yesterday''
         else if days < 7 then numberToString days @ ''d ago''
         else if days < 30 then (let weeks = days div 7 in numberToString weeks @ ''w ago'')
         else if days < 365 then (let months = days div 30 in numberToString months @ ''mo ago'')
         else (let years = days div 365 in numberToString years @ ''y ago''))"

lemma numberToString_1: "numberToString 1 = ''1''"
  by (simp add: numberToString_def digits.simps)

subsection \<open>Previews: \<open>truncateToLines\<close>\<close>

text \<open>
  \<open>trim\<close> removes white space and line terminators at both ends; of those, the code
  units below 256 are the tab, the line feed, the vertical tab, the form feed, the
  carriage return, the space and the no-break space.
\<close>

definition isWhiteSpace :: "char \<Rightarrow> bool" where
  "isWhiteSpace c \<longleftrightarrow>
     c = CHR 0x09 \<or> c = CHR 0x0A \<or> c = CHR 0x0B \<or> c = CHR 0x0C \<or> c = CHR 0x0D
     \<or> c = CHR 0x20 \<or> c = CHR 0xA0"

definition trim :: "string \<Rightarrow> string" where
  "trim s = rev (dropWhile isWhiteSpace (rev (dropWhile isWhiteSpace s)))"

text \<open>
  \<open>str.replace(/<[^>]*>/g, "")\<close>: a match starts at an opening angle bracket that has a
  closing one after it and ends at the first closing one; the scan goes on after it.
\<close>

lemma length_tl_dropWhile_le: "length (dropWhile P t) - Suc 0 \<le> length t"
  using length_dropWhile_le[of P t] by simp

function stripTags :: "string \<Rightarrow> string" where
  "stripTags [] = []"
| "stripTags (c # t) =
     (if c = CHR ''<'' \<and> CHR ''>'' \<in> set t
      then stripTags (tl (dropWhile (\<lambda>d. d \<noteq> CHR ''>'') t))
      else c # stripTags t)"
  by pat_completeness auto
termination
  by (relation "measure length") (auto simp: length_tl_dropWhile_le less_Suc_eq_le)

text \<open>
  \<open>str.split(/\r?\n/)\<close>: a line ends at a line feed, or at a carriage return followed by
  a line feed; the empty string gives one empty line.
\<close>

fun splitLines :: "string \<Rightarrow> string list" where
  "splitLines [] = [[]]"
| "splitLines [c] = (if c = CHR 0x0A then [[], []] else [[c]])"
| "splitLines (c # d # t) =
     (if c = CHR 0x0A then [] # splitLines (d # t)
      else if c = CHR 0x0D \<and> d = CHR 0x0A then [] # splitLines t
      else (case splitLines (d # t) of l # ls \<Rightarrow> (c # l) # ls | [] \<Rightarrow> [[c]]))"

definition truncateToLines :: "string \<Rightarrow> nat \<Rightarrow> string" where
  "truncateToLines str lines =
     (let stripped = trim (stripTags str);
          allLines = filter (\<lambda>l. trim l \<noteq> []) (splitLines stripped);
          truncated = join '' '' (take lines allLines);
          maxChars = lines * 80
      in if length truncated > maxChars then trim (take maxChars truncated) @ ''...''
         else truncated)"

text \<open>A string has a tag when the pattern of \<open>stripTags\<close> matches somewhere in it.\<close>

fun has_tag :: "string \<Rightarrow> bool" where
  "has_tag [] = False"
| "has_tag (c # t) = ((c = CHR ''<'' \<and> CHR ''>'' \<in> set t) \<or> has_tag t)"

subsection \<open>Collapse state and group headers\<close>

text \<open>
  The two sets of the view, \<open>collapsedGroups\<close> and \<open>collapsedSubGroups\<close>, are its only
  state. Rendering reads them; the click handler of a group header changes one of them and
  renders again, so a render is a function of the state and a click is a function on it.
\<close>

datatype level = primary | secondary | tertiary

definition levels :: "level list" where
  "levels = [primary, secondary, tertiary]"

text \<open>\<open>levels[i]\<close>, undefined (\<open>None\<close>) out of range.\<close>

definition levelAt :: "nat \<Rightarrow> level option" where
  "levelAt i = (if i < length levels then Some (levels ! i) else None)"

definition isSubLevel :: "level option \<Rightarrow> bool" where
  \<comment> \<open>\<open>level === "secondary" || level === "tertiary"\<close>\<close>
  "isSubLevel l \<longleftrightarrow> l = Some secondary \<or> l = Some tertiary"

record view =
  collapsedGroups :: "string set"
  collapsedSubGroups :: "string set"

definition collapsedSetFor :: "view \<Rightarrow> level option \<Rightarrow> string set" where
  "collapsedSetFor v l = (if isSubLevel l then collapsedSubGroups v else collapsedGroups v)"

text \<open>
  What \<open>renderGroupHeader\<close> makes: the title and the count that are shown, and what the
  click handler captures, namely \<open>isCollapsed\<close>, the level (which selects the set) and the
  key \<open>compoundKey || title\<close>.
\<close>

record header =
  hLevel :: "level option"
  hTitle :: string
  hCount :: "nat option"
  hIsCollapsed :: bool
  hGroupKey :: string

definition renderGroupHeader ::
  "string \<Rightarrow> nat \<Rightarrow> bool \<Rightarrow> bool \<Rightarrow> level option \<Rightarrow> string option \<Rightarrow> header" where
  "renderGroupHeader title cnt isCollapsed showGroupCounts lvl compoundKey =
     \<lparr>hLevel = lvl,
      hTitle = stripWikilinks title,
      hCount = (if showGroupCounts then Some cnt else None),
      hIsCollapsed = isCollapsed,
      hGroupKey = (case compoundKey of
                     Some k \<Rightarrow> if k \<noteq> [] then k else title
                   | None \<Rightarrow> title)\<rparr>"

text \<open>The click handler of a header; the render that follows it is \<open>onDataUpdated\<close> at the
  new state.\<close>

definition click :: "header \<Rightarrow> view \<Rightarrow> view" where
  "click h v =
     (if isSubLevel (hLevel h) then
        v\<lparr>collapsedSubGroups :=
             (if hIsCollapsed h then collapsedSubGroups v - {hGroupKey h}
              else insert (hGroupKey h) (collapsedSubGroups v))\<rparr>
      else
        v\<lparr>collapsedGroups :=
             (if hIsCollapsed h then collapsedGroups v - {hGroupKey h}
              else insert (hGroupKey h) (collapsedGroups v))\<rparr>)"

subsection \<open>Rendering the groups\<close>

text \<open>
  The elements that a render creates: a group element with its header and, unless it is
  collapsed, its content; the list of the entries of a group; the empty state.
\<close>

datatype node =
    GroupEl header "node list"
  | EntriesEl "entry list"
  | EmptyEl

definition renderCustomGroup ::
  "view \<Rightarrow> string \<Rightarrow> string \<Rightarrow> entry list \<Rightarrow> nat \<Rightarrow> bool \<Rightarrow> node" where
  "renderCustomGroup v nativeKey groupKey entries levelOffset showGroupCounts =
     (let lvl = levelAt levelOffset;
          collapseKey = (if nativeKey \<noteq> [] then nativeKey @ ''::'' @ groupKey else groupKey);
          collapsedSet = (if isSubLevel lvl then collapsedSubGroups v else collapsedGroups v);
          isCollapsed = (collapseKey \<in> collapsedSet);
          h = renderGroupHeader groupKey (length entries) isCollapsed showGroupCounts lvl
                (Some collapseKey)
      in GroupEl h (if isCollapsed then [] else [EntriesEl entries]))"

definition renderSubGroup ::
  "view \<Rightarrow> string \<Rightarrow> string \<Rightarrow> level option \<Rightarrow> bool \<Rightarrow> string \<times> entry list \<Rightarrow> node" where
  \<comment> \<open>the body of the loop over the sub-groups\<close>
  "renderSubGroup v nativeKey groupKey subLevel showGroupCounts sg =
     (case sg of (subGroupKey, subEntries) \<Rightarrow>
        (let compoundKey =
               (if nativeKey \<noteq> [] then nativeKey @ ''::'' @ groupKey @ ''::'' @ subGroupKey
                else groupKey @ '':'' @ subGroupKey);
             isSubCollapsed = (compoundKey \<in> collapsedSubGroups v);
             h = renderGroupHeader subGroupKey (length subEntries) isSubCollapsed
                   showGroupCounts subLevel (Some compoundKey)
         in GroupEl h (if isSubCollapsed then [] else [EntriesEl subEntries])))"

definition renderGroupWithSubGroups ::
  "view \<Rightarrow> string \<Rightarrow> string \<Rightarrow> entry list \<Rightarrow> string \<Rightarrow> nat \<Rightarrow> bool \<Rightarrow> node" where
  "renderGroupWithSubGroups v nativeKey groupKey entries subGroupProperty levelOffset showGroupCounts =
     (let primaryLevel = levelAt levelOffset;
          subLevel = levelAt (levelOffset + 1);
          collapseKey = (if nativeKey \<noteq> [] then nativeKey @ ''::'' @ groupKey else groupKey);
          primaryCollapsedSet =
            (if isSubLevel primaryLevel then collapsedSubGroups v else collapsedGroups v);
          isCollapsed = (collapseKey \<in> primaryCollapsedSet);
          h = renderGroupHeader groupKey (length entries) isCollapsed showGroupCounts
                primaryLevel (Some collapseKey)
      in if isCollapsed then GroupEl h []
         else
           (let subGroups = groupEntriesByProperty entries subGroupProperty
            in GroupEl h
                 (map (renderSubGroup v nativeKey groupKey subLevel showGroupCounts) subGroups)))"

text \<open>
  A native group of \<open>this.data.groupedData\<close>: \<open>hasKey()\<close>, \<open>key?.toString()\<close> (\<open>None\<close>
  for undefined) and the entries. The configuration: the two grouping properties as
  \<open>getConfigPropertyId\<close> returns them (\<open>None\<close> for null; it never returns the empty
  string) and the option \<open>showGroupCounts\<close>.
\<close>

record nativeGroup =
  gHasKey :: bool
  gKey :: "string option"
  gEntries :: "entry list"

record config =
  primaryGroup :: "string option"
  subGroup :: "string option"
  showGroupCounts :: bool

definition renderPluginGroups ::
  "view \<Rightarrow> config \<Rightarrow> nat \<Rightarrow> string \<Rightarrow> entry list \<Rightarrow> node list" where
  \<comment> \<open>plugin grouping within the entries of one native group\<close>
  "renderPluginGroups v cfg levelOffset nativeKey entries =
     (case primaryGroup cfg of
        Some groupByProperty \<Rightarrow>
          map (\<lambda>(groupKey, es).
                 case subGroup cfg of
                   Some subGroupByProperty \<Rightarrow>
                     renderGroupWithSubGroups v nativeKey groupKey es subGroupByProperty
                       levelOffset (showGroupCounts cfg)
                 | None \<Rightarrow>
                     renderCustomGroup v nativeKey groupKey es levelOffset (showGroupCounts cfg))
            (groupEntriesByProperty entries groupByProperty)
      | None \<Rightarrow>
          (case subGroup cfg of
             Some subGroupByProperty \<Rightarrow>
               map (\<lambda>(groupKey, es).
                      renderCustomGroup v nativeKey groupKey es levelOffset (showGroupCounts cfg))
                 (groupEntriesByProperty entries subGroupByProperty)
           | None \<Rightarrow> [EntriesEl entries]))"

definition renderNativeGroup :: "view \<Rightarrow> config \<Rightarrow> nat \<Rightarrow> nativeGroup \<Rightarrow> node list" where
  \<comment> \<open>the body of the loop over the native groups\<close>
  "renderNativeGroup v cfg levelOffset g =
     (let nativeKey =
            (if gHasKey g then (case gKey g of Some s \<Rightarrow> s | None \<Rightarrow> ''__ungrouped__'')
             else [])
      in if gHasKey g then
           (let isNativeCollapsed = (nativeKey \<in> collapsedGroups v);
                h = renderGroupHeader
                      (stripWikilinks (case gKey g of Some s \<Rightarrow> s | None \<Rightarrow> []))
                      (length (gEntries g)) isNativeCollapsed (showGroupCounts cfg)
                      (Some primary) None
            in if isNativeCollapsed then [GroupEl h []]
               else [GroupEl h (renderPluginGroups v cfg levelOffset nativeKey (gEntries g))])
         else renderPluginGroups v cfg levelOffset nativeKey (gEntries g))"

definition onDataUpdated :: "view \<Rightarrow> config \<Rightarrow> nativeGroup list \<Rightarrow> node list" where
  "onDataUpdated v cfg groupedData =
     (let hasNativeGrouping = list_ex gHasKey groupedData;
          levelOffset = (if hasNativeGrouping then 1 else 0);
          totalEntries = sum_list (map (\<lambda>g. length (gEntries g)) groupedData)
      in concat (map (renderNativeGroup v cfg levelOffset) groupedData)
         @ (if totalEntries = 0 then [EmptyEl] else []))"

section \<open>Auxiliary notions and facts\<close>

subsection \<open>Facts about \<open>stripWikilinks\<close>\<close>

lemma wikilink_at_None_iff:
  "wikilink_at (CHR ''['' # CHR ''['' # t) = None \<longleftrightarrow>
     takeWhile notclose t = [] \<or> \<not> closes (dropWhile notclose t)"
proof (cases "dropWhile notclose t")
  case Nil
  then show ?thesis
    by (simp add: wikilink_at_def closes_def Let_def del: dropWhile_eq_Nil_conv)
next
  case (Cons c r)
  then show ?thesis
    by (cases r) (simp_all add: wikilink_at_def closes_def Let_def del: dropWhile_eq_Nil_conv)
qed

lemma wikilink_at_not_open:
  "c \<noteq> CHR ''['' \<Longrightarrow> wikilink_at (c # t) = None"
  by (simp add: wikilink_at_def split: list.splits)

lemma wikilink_at_SomeD:
  assumes "wikilink_at s = Some (X, rest)"
  shows "\<exists>t. s = CHR ''['' # CHR ''['' # t \<and> X = takeWhile notclose t \<and> X \<noteq> []
           \<and> dropWhile notclose t = CHR '']'' # CHR '']'' # rest"
  using assms
  by (auto simp: wikilink_at_def Let_def split: list.splits if_splits)

lemma find_alias_subset: "find_alias t = Some a \<Longrightarrow> a \<noteq> [] \<and> set a \<subseteq> set t"
  by (induction t) (auto split: if_splits)

lemma link_display_nonempty: "X \<noteq> [] \<Longrightarrow> link_display X \<noteq> []"
  by (auto simp: link_display_def split: option.splits dest: find_alias_subset)

lemma link_display_subset: "set (link_display X) \<subseteq> set X"
  by (cases X) (auto simp: link_display_def split: option.splits dest!: find_alias_subset)

lemma link_display_no_close:
  assumes "wikilink_at s = Some (X, rest)"
  shows "CHR '']'' \<notin> set (link_display X)"
proof -
  from wikilink_at_SomeD[OF assms] obtain t where "X = takeWhile notclose t" by blast
  then have "CHR '']'' \<notin> set X" by (auto dest: set_takeWhileD)
  with link_display_subset show ?thesis by blast
qed

lemma stripWikilinks_no_wikilink: "no_wikilink s \<Longrightarrow> stripWikilinks s = s"
  by (induction s) auto

lemma no_wikilink_append:
  "CHR ''['' \<notin> set D \<Longrightarrow> no_wikilink u \<Longrightarrow> no_wikilink (D @ u)"
  by (induction D) (auto simp: wikilink_at_not_open)

text \<open>A substituted text is not empty and has no closing bracket, so the result of the
  scan starts with a closing bracket only if its input does.\<close>

lemma stripWikilinks_starts_close:
  assumes "stripWikilinks t = CHR '']'' # u"
  shows "\<exists>t'. t = CHR '']'' # t'"
proof (cases t)
  case Nil
  with assms show ?thesis by simp
next
  case (Cons e t1)
  show ?thesis
  proof (cases "wikilink_at (e # t1)")
    case None
    with assms Cons show ?thesis by simp
  next
    case (Some p)
    obtain X rest where p: "p = (X, rest)" by (cases p)
    from Some p wikilink_at_SomeD have "X \<noteq> []" by blast
    then have ne: "link_display X \<noteq> []" by (rule link_display_nonempty)
    from Some p have "CHR '']'' \<notin> set (link_display X)"
      by (auto dest: link_display_no_close)
    moreover from assms Cons Some p have "link_display X @ stripWikilinks rest = CHR '']'' # u"
      by simp
    ultimately show ?thesis using ne by (cases "link_display X") auto
  qed
qed

lemma stripWikilinks_nonempty:
  assumes "s \<noteq> []"
  shows "stripWikilinks s \<noteq> []"
proof (cases s)
  case Nil
  with assms show ?thesis by simp
next
  case (Cons c t)
  show ?thesis
  proof (cases "wikilink_at (c # t)")
    case None
    with Cons show ?thesis by simp
  next
    case (Some p)
    obtain X rest where p: "p = (X, rest)" by (cases p)
    from Some p wikilink_at_SomeD have "X \<noteq> []" by blast
    then have "link_display X \<noteq> []" by (rule link_display_nonempty)
    with Cons Some p show ?thesis by simp
  qed
qed

lemma dropWhile_stripWikilinks:
  "\<not> closes (dropWhile notclose s) \<Longrightarrow> \<not> closes (dropWhile notclose (stripWikilinks s))"
proof (induction s rule: stripWikilinks.induct)
  case 1
  then show ?case by simp
next
  case (2 c t)
  show ?case
  proof (cases "wikilink_at (c # t)")
    case (Some p)
    obtain X rest where p: "p = (X, rest)" by (cases p)
    from wikilink_at_SomeD[OF Some[unfolded p]] have "closes (dropWhile notclose (c # t))"
      by (auto simp: closes_def)
    with "2.prems" show ?thesis by simp
  next
    case None
    show ?thesis
    proof (cases "c = CHR '']''")
      case True
      with "2.prems" have "\<not> (\<exists>t'. t = CHR '']'' # t')" by (auto simp: closes_def)
      with stripWikilinks_starts_close have "\<not> (\<exists>u. stripWikilinks t = CHR '']'' # u)" by blast
      with None True show ?thesis by (auto simp: closes_def split: list.splits)
    next
      case False
      with "2.prems" "2.IH"(1)[OF None] None show ?thesis by simp
    qed
  qed
qed

lemma takeWhile_stripWikilinks:
  "takeWhile notclose s = [] \<Longrightarrow> takeWhile notclose (stripWikilinks s) = []"
  by (cases s) (auto simp: wikilink_at_not_open split: if_splits)

text \<open>Where no match starts before the scan, none starts after it: the text between two
  opening brackets and the next closing bracket holds no other match.\<close>

lemma wikilink_at_after_strip:
  assumes "wikilink_at (c # t) = None"
  shows "wikilink_at (c # stripWikilinks t) = None"
proof (cases "c = CHR ''[''")
  case False
  then show ?thesis by (rule wikilink_at_not_open)
next
  case c: True
  show ?thesis
  proof (cases t)
    case Nil
    then show ?thesis by (simp add: wikilink_at_def)
  next
    case (Cons d t')
    show ?thesis
    proof (cases "d = CHR ''[''")
      case False
      then have "wikilink_at (d # t') = None" by (rule wikilink_at_not_open)
      with Cons False show ?thesis by (simp add: wikilink_at_def)
    next
      case d: True
      have inner: "wikilink_at (d # t') = None"
      proof (rule ccontr)
        assume "wikilink_at (d # t') \<noteq> None"
        then obtain X rest where "wikilink_at (d # t') = Some (X, rest)" by auto
        from wikilink_at_SomeD[OF this] obtain t'' where
          "t' = CHR ''['' # t''" "takeWhile notclose t'' \<noteq> []"
          "dropWhile notclose t'' = CHR '']'' # CHR '']'' # rest" by auto
        then have "wikilink_at (CHR ''['' # CHR ''['' # t') \<noteq> None"
          by (simp add: wikilink_at_None_iff closes_def)
        with assms c d Cons show False by simp
      qed
      from assms c d Cons have "takeWhile notclose t' = [] \<or> \<not> closes (dropWhile notclose t')"
        by (simp add: wikilink_at_None_iff)
      then have "takeWhile notclose (stripWikilinks t') = []
                 \<or> \<not> closes (dropWhile notclose (stripWikilinks t'))"
        using takeWhile_stripWikilinks dropWhile_stripWikilinks by blast
      then have "wikilink_at (CHR ''['' # CHR ''['' # stripWikilinks t') = None"
        by (simp add: wikilink_at_None_iff)
      with inner c d Cons show ?thesis by simp
    qed
  qed
qed

lemma no_wikilink_stripWikilinks:
  "\<forall>D\<in>set (link_displays s). CHR ''['' \<notin> set D \<Longrightarrow> no_wikilink (stripWikilinks s)"
proof (induction s rule: stripWikilinks.induct)
  case 1
  then show ?case by simp
next
  case (2 c t)
  show ?case
  proof (cases "wikilink_at (c # t)")
    case None
    with 2 show ?thesis by (simp add: wikilink_at_after_strip)
  next
    case (Some p)
    obtain X rest where p: "p = (X, rest)" by (cases p)
    with 2 Some show ?thesis by (simp add: no_wikilink_append)
  qed
qed

subsection \<open>First-seen order\<close>

text \<open>The elements of a list in the order of their first occurrence, each once; used to
  state in which order a loop that skips what it has seen adds its elements.\<close>

fun first_seen :: "'a list \<Rightarrow> 'a list" where
  "first_seen [] = []"
| "first_seen (x # xs) = x # filter (\<lambda>y. y \<noteq> x) (first_seen xs)"

lemma set_first_seen: "set (first_seen xs) = set xs"
  by (induction xs) auto

lemma distinct_first_seen: "distinct (first_seen xs)"
  by (induction xs) auto

lemma mapPush_absent: "k \<notin> set (map fst m) \<Longrightarrow> mapPush m k x = m"
  by (induction m) (auto simp: mapPush_def)

lemma groupStep_present:
  assumes "getPropertyValueAsString e P \<in> set (map fst G)"
  shows "groupStep P G e =
           map (\<lambda>(k, b). (k, b @ filter (\<lambda>e'. getPropertyValueAsString e' P = k) [e])) G"
  using assms by (auto simp: groupStep_def mapHas_def mapPush_def)

lemma groupStep_absent:
  assumes "getPropertyValueAsString e P \<notin> set (map fst G)"
  shows "groupStep P G e = G @ [(getPropertyValueAsString e P, [e])]"
  using assms
  by (simp add: groupStep_def mapHas_def mapSet_def mapPush_def mapPush_absent[unfolded mapPush_def])

text \<open>The loop from any map \<open>G\<close>: every bucket of \<open>G\<close> receives the entries with its key, in
  their order, and the keys that \<open>G\<close> does not have are added after it as they are first
  seen.\<close>

lemma foldl_groupStep:
  "foldl (groupStep P) G es =
     map (\<lambda>(k, b). (k, b @ filter (\<lambda>e. getPropertyValueAsString e P = k) es)) G
     @ map (\<lambda>k. (k, filter (\<lambda>e. getPropertyValueAsString e P = k) es))
         (filter (\<lambda>k. k \<notin> set (map fst G))
            (first_seen (map (\<lambda>e. getPropertyValueAsString e P) es)))"
proof (induction es arbitrary: G)
  case Nil
  show ?case by (simp add: case_prod_unfold)
next
  case (Cons e es)
  let ?key = "\<lambda>e. getPropertyValueAsString e P"
  let ?fs = "first_seen (map ?key es)"
  show ?case
  proof (cases "?key e \<in> set (map fst G)")
    case True
    let ?G1 = "groupStep P G e"
    have keys: "set (map fst ?G1) = set (map fst G)"
      by (simp add: groupStep_present[OF True] case_prod_unfold comp_def)
    have a: "map (\<lambda>(k, b). (k, b @ filter (\<lambda>e. ?key e = k) es)) ?G1
           = map (\<lambda>(k, b). (k, b @ filter (\<lambda>e'. ?key e' = k) (e # es))) G"
      by (simp add: groupStep_present[OF True] case_prod_unfold)
    have b: "filter (\<lambda>k. k \<notin> set (map fst G)) (first_seen (map ?key (e # es)))
           = filter (\<lambda>k. k \<notin> set (map fst G)) ?fs"
      using True by (auto intro: filter_cong)
    have c: "map (\<lambda>k. (k, filter (\<lambda>e'. ?key e' = k) (e # es)))
               (filter (\<lambda>k. k \<notin> set (map fst G)) ?fs)
           = map (\<lambda>k. (k, filter (\<lambda>e'. ?key e' = k) es))
               (filter (\<lambda>k. k \<notin> set (map fst G)) ?fs)"
      using True by (auto intro!: map_cong)
    have "foldl (groupStep P) G (e # es) = foldl (groupStep P) ?G1 es" by simp
    also have "\<dots> = map (\<lambda>(k, b). (k, b @ filter (\<lambda>e. ?key e = k) es)) ?G1
         @ map (\<lambda>k. (k, filter (\<lambda>e. ?key e = k) es))
             (filter (\<lambda>k. k \<notin> set (map fst ?G1)) ?fs)"
      by (rule Cons.IH)
    also have "\<dots> = map (\<lambda>(k, b). (k, b @ filter (\<lambda>e'. ?key e' = k) (e # es))) G
         @ map (\<lambda>k. (k, filter (\<lambda>e'. ?key e' = k) (e # es)))
             (filter (\<lambda>k. k \<notin> set (map fst G)) (first_seen (map ?key (e # es))))"
      unfolding a keys b c ..
    finally show ?thesis .
  next
    case False
    let ?G1 = "G @ [(?key e, [e])]"
    have g1: "groupStep P G e = ?G1" by (rule groupStep_absent[OF False])
    have a: "map (\<lambda>(k, b). (k, b @ filter (\<lambda>e'. ?key e' = k) (e # es))) G
           = map (\<lambda>(k, b). (k, b @ filter (\<lambda>e'. ?key e' = k) es)) G"
      using False by (force intro!: map_cong)
    have b: "filter (\<lambda>k. k \<notin> set (map fst G)) (first_seen (map ?key (e # es)))
           = ?key e # filter (\<lambda>k. k \<notin> set (map fst ?G1)) ?fs"
      using False by (auto intro: filter_cong)
    have c: "map (\<lambda>k. (k, filter (\<lambda>e'. ?key e' = k) (e # es)))
               (filter (\<lambda>k. k \<notin> set (map fst ?G1)) ?fs)
           = map (\<lambda>k. (k, filter (\<lambda>e'. ?key e' = k) es))
               (filter (\<lambda>k. k \<notin> set (map fst ?G1)) ?fs)"
      by (auto intro!: map_cong)
    have "foldl (groupStep P) G (e # es) = foldl (groupStep P) ?G1 es" by (simp add: g1)
    also have "\<dots> = map (\<lambda>(k, b). (k, b @ filter (\<lambda>e. ?key e = k) es)) ?G1
         @ map (\<lambda>k. (k, filter (\<lambda>e. ?key e = k) es))
             (filter (\<lambda>k. k \<notin> set (map fst ?G1)) ?fs)"
      by (rule Cons.IH)
    also have "\<dots> = map (\<lambda>(k, b). (k, b @ filter (\<lambda>e'. ?key e' = k) (e # es))) G
         @ map (\<lambda>k. (k, filter (\<lambda>e'. ?key e' = k) (e # es)))
             (filter (\<lambda>k. k \<notin> set (map fst G)) (first_seen (map ?key (e # es))))"
      unfolding a b by (simp add: c)
    finally show ?thesis .
  qed
qed

lemma groupEntriesByProperty_eq:
  "groupEntriesByProperty E P =
     map (\<lambda>k. (k, filter (\<lambda>e. getPropertyValueAsString e P = k) E))
       (first_seen (map (\<lambda>e. getPropertyValueAsString e P) E))"
  by (simp add: groupEntriesByProperty_def foldl_groupStep)

lemma mset_filter_key_split:
  "k \<notin> set ks \<Longrightarrow>
     mset (filter (\<lambda>e. key e = k) E) + mset (filter (\<lambda>e. key e \<in> set ks) E)
       = mset (filter (\<lambda>e. key e = k \<or> key e \<in> set ks) E)"
  by (induction E) auto

lemma mset_concat_buckets:
  "distinct ks \<Longrightarrow>
     mset (concat (map (\<lambda>k. filter (\<lambda>e. key e = k) E) ks))
       = mset (filter (\<lambda>e. key e \<in> set ks) E)"
proof (induction ks)
  case Nil
  show ?case by simp
next
  case (Cons k ks)
  then have "mset (concat (map (\<lambda>k. filter (\<lambda>e. key e = k) E) (k # ks)))
           = mset (filter (\<lambda>e. key e = k) E) + mset (filter (\<lambda>e. key e \<in> set ks) E)"
    by simp
  also have "\<dots> = mset (filter (\<lambda>e. key e = k \<or> key e \<in> set ks) E)"
    using Cons.prems by (intro mset_filter_key_split) simp
  finally show ?case by simp
qed

lemma stripWikilinks_plain: "CHR ''['' \<notin> set s \<Longrightarrow> stripWikilinks s = s"
  by (induction s) (auto simp: wikilink_at_not_open)

subsection \<open>Example entries\<close>

text \<open>A note that the accessor does not know (it returns null for every id) and whose
  frontmatter has the one field \<open>status\<close>.\<close>

definition note_entry :: "string \<Rightarrow> string \<Rightarrow> entry" where
  "note_entry p status =
     \<lparr>path = p, getValue = (\<lambda>_. Returns JNull), parentName = None,
      fileCache = Some \<lparr>frontmatter = Some [''status'' \<mapsto> JStr status], tags = None\<rparr>\<rparr>"

subsection \<open>Facts about group keys\<close>

lemma digits_nonempty: "digits n \<noteq> []"
  by (subst digits.simps) simp

lemma numberToString_nonempty: "numberToString i \<noteq> []"
  by (simp add: numberToString_def digits_nonempty)

lemma valueToGroupString_object:
  "typeof v = TObject \<Longrightarrow> v \<noteq> JNull \<Longrightarrow>
     valueToGroupString v =
       (if toString v = [] \<or> toString v = ''null'' \<or> toString v = ''undefined'' then ''None''
        else stripWikilinks (toString v))"
  by (cases v) (simp_all add: valueToGroupString.simps Let_def)

subsection \<open>Facts about the resolvers and the tag list\<close>

text \<open>\<open>cache?.tags\<close> as a list, empty where the cache or its tags are missing.\<close>

definition cacheTags :: "entry \<Rightarrow> string list" where
  "cacheTags e =
     (case fileCache e of
        None \<Rightarrow> []
      | Some c \<Rightarrow> (case tags c of None \<Rightarrow> [] | Some ts \<Rightarrow> ts))"

lemma getTags_foldl: "getTags e = foldl tagStep (frontmatterTags e) (cacheTags e)"
  by (simp add: getTags_def cacheTags_def split: option.splits)

lemma foldl_tagStep:
  "foldl tagStep acc ts =
     acc @ filter (\<lambda>t. t \<notin> set acc) (first_seen (map (\<lambda>t. JStr (inlineTag t)) ts))"
proof (induction ts arbitrary: acc)
  case Nil
  show ?case by simp
next
  case (Cons t ts)
  show ?case
  proof (cases "JStr (inlineTag t) \<in> set acc")
    case True
    then have "foldl tagStep acc (t # ts) = foldl tagStep acc ts"
      by (simp add: tagStep_def)
    also have "\<dots> = acc @ filter (\<lambda>t. t \<notin> set acc) (first_seen (map (\<lambda>t. JStr (inlineTag t)) ts))"
      by (rule Cons.IH)
    also have "filter (\<lambda>t. t \<notin> set acc) (first_seen (map (\<lambda>t. JStr (inlineTag t)) ts))
             = filter (\<lambda>t. t \<notin> set acc) (first_seen (map (\<lambda>t. JStr (inlineTag t)) (t # ts)))"
      using True by (auto intro: filter_cong)
    finally show ?thesis .
  next
    case False
    then have "foldl tagStep acc (t # ts) = foldl tagStep (acc @ [JStr (inlineTag t)]) ts"
      by (simp add: tagStep_def)
    also have "\<dots> = (acc @ [JStr (inlineTag t)])
        @ filter (\<lambda>u. u \<notin> set (acc @ [JStr (inlineTag t)])) (first_seen (map (\<lambda>t. JStr (inlineTag t)) ts))"
      by (rule Cons.IH)
    also have "\<dots> = acc @ filter (\<lambda>t. t \<notin> set acc) (first_seen (map (\<lambda>t. JStr (inlineTag t)) (t # ts)))"
      using False by (auto intro: filter_cong)
    finally show ?thesis .
  qed
qed

text \<open>
  Where the accessor returns a value whose string is empty, \<open>null\<close> or \<open>undefined\<close>, the
  subtitle goes on to the frontmatter; the grouping key is \<open>None\<close> at once when the
  value is an object.
\<close>

lemma subtitle_unusable_falls_through:
  assumes "getValue e P = Returns v" "toString v \<in> {[], ''null'', ''undefined''}" "P \<noteq> ''file.folder''"
  shows "getSubtitleText e P = subtitleFrontmatterStep e P"
  using assms
  by (auto simp: getSubtitleText_def subtitleAccessorStep_def SUBTITLE_PARENT_FOLDER_def Let_def)

lemma grouping_unusable_returns_None:
  assumes "getValue e P = Returns v" "typeof v = TObject" "v \<noteq> JNull"
    "toString v \<in> {[], ''null'', ''undefined''}"
  shows "getPropertyValueAsString e P = ''None''"
proof -
  from assms have "truthy v" by (cases v) simp_all
  with assms show ?thesis
    by (auto simp: getPropertyValueAsString_def groupAccessorStep_def valueToGroupString_object)
qed

text \<open>For \<open>file.folder\<close> the subtitle does not consult the accessor at all.\<close>

lemma getSubtitleText_file_folder:
  "getSubtitleText e ''file.folder'' =
     (case parentName e of
        Some n \<Rightarrow> if n \<noteq> [] then Some n else None
      | None \<Rightarrow> None)"
  by (simp add: getSubtitleText_def)

text \<open>
  More example entries: one whose accessor returns an object printing as \<open>null\<close> for
  \<open>note.status\<close> while its frontmatter has the status; one whose accessor throws, with a
  given parent folder name; one with a given frontmatter tag field and inline tags.
\<close>

definition stale_entry :: entry where
  "stale_entry =
     \<lparr>path = ''a.md'',
      getValue = (\<lambda>propertyId. if propertyId = ''note.status'' then Returns (JObj ''null'') else Throws),
      parentName = Some ''Projects'',
      fileCache = Some \<lparr>frontmatter = Some [''status'' \<mapsto> JStr ''done''], tags = None\<rparr>\<rparr>"

definition folder_entry :: "string option \<Rightarrow> entry" where
  "folder_entry parent =
     \<lparr>path = ''a.md'', getValue = (\<lambda>_. Throws), parentName = parent, fileCache = None\<rparr>"

definition tagged_entry :: "jsvalue \<Rightarrow> string list \<Rightarrow> entry" where
  "tagged_entry fmTags inline =
     \<lparr>path = ''a.md'', getValue = (\<lambda>_. Returns JNull), parentName = None,
      fileCache = Some \<lparr>frontmatter = Some [''tags'' \<mapsto> fmTags], tags = Some inline\<rparr>\<rparr>"

subsection \<open>Facts about \<open>truncateToLines\<close>\<close>

lemma set_stripTags: "set (stripTags s) \<subseteq> set s"
proof (induction s rule: stripTags.induct)
  case 1
  show ?case by simp
next
  case (2 c t)
  have "set (tl xs) \<subseteq> set xs" for xs :: string
    by (cases xs) auto
  moreover have "set (dropWhile (\<lambda>d. d \<noteq> CHR ''>'') t) \<subseteq> set t"
    by (auto dest: set_dropWhileD)
  ultimately have "set (tl (dropWhile (\<lambda>d. d \<noteq> CHR ''>'') t)) \<subseteq> set t"
    by blast
  with 2 show ?case by auto
qed

lemma no_tag_stripTags: "\<not> has_tag (stripTags s)"
proof (induction s rule: stripTags.induct)
  case 1
  show ?case by simp
next
  case (2 c t)
  then show ?case using set_stripTags[of t] by auto
qed

abbreviation angle :: "char \<Rightarrow> bool" where
  "angle \<equiv> (\<lambda>c. c = CHR ''<'' \<or> c = CHR ''>'')"

lemma has_tag_filter: "has_tag (filter angle s) = has_tag s"
  by (induction s) auto

lemma has_tag_subseq: "subseq u s \<Longrightarrow> has_tag u \<Longrightarrow> has_tag s"
proof (induction rule: list_emb.induct)
  case (list_emb_Nil ys)
  then show ?case by simp
next
  case (list_emb_Cons xs ys y)
  then show ?case by simp
next
  case (list_emb_Cons2 x y xs ys)
  then show ?case by (auto dest: list_emb_set)
qed

lemma splitLines_nonempty: "splitLines s \<noteq> []"
  by (induction s rule: splitLines.induct) (auto split: list.splits)

lemma subseq_concat_splitLines: "subseq (concat (splitLines s)) s"
  by (induction s rule: splitLines.induct) (auto split: list.splits simp: splitLines_nonempty)

lemma subseq_concat: "subseq xs ys \<Longrightarrow> subseq (concat xs) (concat ys)"
  by (induction rule: list_emb.induct) (auto simp: subseq_append' intro: list_emb_append2 list_emb_append_mono)

lemma filter_join_space: "filter angle (join '' '' ls) = filter angle (concat ls)"
  by (induction ls rule: induct_list012) auto

lemma sublist_trim: "sublist (trim s) s"
proof -
  have "sublist (dropWhile isWhiteSpace (rev (dropWhile isWhiteSpace s))) (rev (dropWhile isWhiteSpace s))"
    by (rule suffix_imp_sublist[OF suffix_dropWhile])
  then have "sublist (trim s) (dropWhile isWhiteSpace s)"
    by (simp add: trim_def sublist_rev_left)
  also have "sublist (dropWhile isWhiteSpace s) s"
    by (rule suffix_imp_sublist[OF suffix_dropWhile])
  finally show ?thesis .
qed

text \<open>The lines that are kept: the first \<open>n\<close> lines that are not blank, of the text
  without its tags.\<close>

definition keptLines :: "string \<Rightarrow> nat \<Rightarrow> string list" where
  "keptLines s n = take n (filter (\<lambda>l. trim l \<noteq> []) (splitLines (trim (stripTags s))))"

lemma truncateToLines_keptLines:
  "truncateToLines s n =
     (if n * 80 < length (join '' '' (keptLines s n))
      then trim (take (n * 80) (join '' '' (keptLines s n))) @ ''...''
      else join '' '' (keptLines s n))"
  by (simp add: truncateToLines_def keptLines_def Let_def)

lemma splitLines_no_LF: "l \<in> set (splitLines s) \<Longrightarrow> CHR 0x0A \<notin> set l"
  by (induction s arbitrary: l rule: splitLines.induct) (auto split: list.splits if_splits)

lemma set_join_space: "set (join '' '' ls) \<subseteq> insert CHR '' '' (\<Union> (set ` set ls))"
  by (induction ls rule: induct_list012) auto

lemma length_trim_le: "length (trim s) \<le> length s"
  by (rule list_emb_length[OF sublist_imp_subseq[OF sublist_trim]])

lemma set_trim: "set (trim s) \<subseteq> set s"
  using sublist_imp_subseq[OF sublist_trim[of s]] by (auto dest: list_emb_set)

lemma no_tag_join_keptLines: "\<not> has_tag (join '' '' (keptLines s n))"
proof
  assume "has_tag (join '' '' (keptLines s n))"
  then have "has_tag (filter angle (concat (keptLines s n)))"
    by (simp add: has_tag_filter flip: filter_join_space)
  then have a: "has_tag (concat (keptLines s n))"
    by (simp add: has_tag_filter)
  let ?L = "splitLines (trim (stripTags s))"
  have "subseq (keptLines s n) ?L"
    unfolding keptLines_def
    by (rule subseq_order.order_trans[OF prefix_imp_subseq[OF take_is_prefix] subseq_filter_left])
  then have "subseq (concat (keptLines s n)) (concat ?L)"
    by (rule subseq_concat)
  also have "subseq (concat ?L) (trim (stripTags s))"
    by (rule subseq_concat_splitLines)
  also have "subseq (trim (stripTags s)) (stripTags s)"
    by (rule sublist_imp_subseq[OF sublist_trim])
  finally have "has_tag (stripTags s)"
    using a by (rule has_tag_subseq)
  then show False by (simp add: no_tag_stripTags)
qed

text \<open>
  The white-space code units of \<open>trim\<close>, written out: tab, line feed, vertical tab, form
  feed, carriage return, space and no-break space. With them \<open>trim s\<close> is told without
  \<open>trim\<close>: it is the one middle part of \<open>s\<close> that has only white space before and
  after it and that is empty or begins and ends with a character that is not white space;
  and \<open>trim l\<close> is empty exactly when every character of \<open>l\<close> is white space.
\<close>

abbreviation whiteSpaceCodes :: "char set" where
  "whiteSpaceCodes \<equiv>
     {CHR 0x09, CHR 0x0A, CHR 0x0B, CHR 0x0C, CHR 0x0D, CHR 0x20, CHR 0xA0}"

lemma isWhiteSpace_iff: "isWhiteSpace c \<longleftrightarrow> c \<in> whiteSpaceCodes"
  by (auto simp: isWhiteSpace_def)

lemma dropWhile_hd_id: "t \<noteq> [] \<Longrightarrow> \<not> P (hd t) \<Longrightarrow> dropWhile P t = t"
  by (cases t) simp_all

lemma trim_eqI:
  assumes s: "s = pre @ t @ post"
    and pre: "set pre \<subseteq> whiteSpaceCodes" and post: "set post \<subseteq> whiteSpaceCodes"
    and t: "t = [] \<or> (hd t \<notin> whiteSpaceCodes \<and> last t \<notin> whiteSpaceCodes)"
  shows "trim s = t"
proof (cases "t = []")
  case True
  with s pre post have "\<forall>c\<in>set s. isWhiteSpace c"
    by (auto simp: isWhiteSpace_iff)
  then have "dropWhile isWhiteSpace s = []"
    by (auto dest: set_dropWhileD)
  with True show ?thesis
    by (simp add: trim_def del: dropWhile_eq_Nil_conv)
next
  case False
  with t have h: "\<not> isWhiteSpace (hd t)" and l: "\<not> isWhiteSpace (last t)"
    by (simp_all add: isWhiteSpace_iff)
  from pre have p: "\<And>x. x \<in> set pre \<Longrightarrow> isWhiteSpace x"
    by (auto simp: isWhiteSpace_iff)
  from post have q: "\<And>x. x \<in> set (rev post) \<Longrightarrow> isWhiteSpace x"
    by (auto simp: isWhiteSpace_iff)
  have "dropWhile isWhiteSpace s = dropWhile isWhiteSpace (t @ post)"
    unfolding s using p by (rule dropWhile_append2)
  also have "\<dots> = t @ post"
    using False h by (intro dropWhile_hd_id) simp_all
  finally have d: "dropWhile isWhiteSpace s = t @ post" .
  have "dropWhile isWhiteSpace (rev post @ rev t) = dropWhile isWhiteSpace (rev t)"
    using q by (rule dropWhile_append2)
  then have "dropWhile isWhiteSpace (rev (t @ post)) = dropWhile isWhiteSpace (rev t)"
    by simp
  also have "\<dots> = rev t"
    using False l by (intro dropWhile_hd_id) (simp_all add: hd_rev)
  finally show ?thesis
    by (simp add: trim_def d)
qed

lemma trim_decomp:
  "\<exists>pre post. s = pre @ trim s @ post
     \<and> set pre \<subseteq> whiteSpaceCodes \<and> set post \<subseteq> whiteSpaceCodes
     \<and> (trim s = [] \<or> (hd (trim s) \<notin> whiteSpaceCodes \<and> last (trim s) \<notin> whiteSpaceCodes))"
proof -
  let ?d = "dropWhile isWhiteSpace s"
  let ?pre = "takeWhile isWhiteSpace s"
  let ?post = "rev (takeWhile isWhiteSpace (rev ?d))"
  have "?d = rev (takeWhile isWhiteSpace (rev ?d) @ dropWhile isWhiteSpace (rev ?d))"
    by (simp only: takeWhile_dropWhile_id rev_rev_ident)
  then have d: "?d = trim s @ ?post"
    by (simp only: rev_append trim_def)
  have "s = ?pre @ ?d"
    by simp
  with d have s: "s = ?pre @ trim s @ ?post"
    by simp
  have pre: "set ?pre \<subseteq> whiteSpaceCodes"
    by (auto dest: set_takeWhileD simp: isWhiteSpace_iff)
  have post: "set ?post \<subseteq> whiteSpaceCodes"
    by (auto dest: set_takeWhileD simp: isWhiteSpace_iff)
  have ends: "hd (trim s) \<notin> whiteSpaceCodes \<and> last (trim s) \<notin> whiteSpaceCodes" if ne: "trim s \<noteq> []"
  proof -
    from ne have r: "dropWhile isWhiteSpace (rev ?d) \<noteq> []"
      by (simp add: trim_def)
    then have "\<not> isWhiteSpace (hd (dropWhile isWhiteSpace (rev ?d)))"
      by (rule hd_dropWhile)
    then have l: "\<not> isWhiteSpace (last (trim s))"
      using r by (simp add: trim_def last_rev)
    from ne d have dne: "?d \<noteq> []"
      by (metis Nil_is_append_conv)
    then have "\<not> isWhiteSpace (hd ?d)"
      by (rule hd_dropWhile)
    moreover from ne d have "hd ?d = hd (trim s)"
      by (metis hd_append2)
    ultimately show ?thesis
      using l by (simp add: isWhiteSpace_iff)
  qed
  from s pre post ends show ?thesis
    by blast
qed

lemma trim_empty_iff: "trim l = [] \<longleftrightarrow> set l \<subseteq> whiteSpaceCodes"
proof
  assume e: "trim l = []"
  from trim_decomp[of l] obtain pre post where
    "l = pre @ trim l @ post" "set pre \<subseteq> whiteSpaceCodes" "set post \<subseteq> whiteSpaceCodes"
    by blast
  with e have "l = pre @ post" "set pre \<subseteq> whiteSpaceCodes" "set post \<subseteq> whiteSpaceCodes"
    by simp_all
  then show "set l \<subseteq> whiteSpaceCodes"
    by auto
next
  assume "set l \<subseteq> whiteSpaceCodes"
  then show "trim l = []"
    by (intro trim_eqI[where pre = l and post = "[]"]) simp_all
qed

lemma keptLines_nonblank:
  "keptLines s n =
     take n (filter (\<lambda>l. \<not> set l \<subseteq> whiteSpaceCodes) (splitLines (trim (stripTags s))))"
  by (simp only: keptLines_def trim_empty_iff)

text \<open>
  Two example texts: one with tags, white space around it and a line of a space and a tab
  only, and one line of 82 characters with two spaces at positions 78 and 79.
\<close>

lemma stripTags_plain: "CHR ''<'' \<notin> set s \<Longrightarrow> stripTags s = s"
  by (induction s) auto

lemma splitLines_plain: "CHR 0x0A \<notin> set s \<Longrightarrow> splitLines s = [s]"
  by (induction s rule: splitLines.induct) auto

definition blank_text :: string where
  "blank_text =
     ''  <b>Hi</b>'' @ [CHR 0x0A] @ [CHR 0x20, CHR 0x09] @ [CHR 0x0A] @ ''there'' @ [CHR 0x0A]
     @ ''more '' @ [CHR 0x0A]"

definition cut_text :: string where
  "cut_text = replicate 78 (CHR ''x'') @ ''  yz''"

lemma stripTags_blank_text:
  "stripTags blank_text =
     ''  Hi'' @ [CHR 0x0A] @ [CHR 0x20, CHR 0x09] @ [CHR 0x0A] @ ''there'' @ [CHR 0x0A]
     @ ''more '' @ [CHR 0x0A]"
  by (simp add: blank_text_def)

lemma trim_stripTags_blank_text:
  "trim (stripTags blank_text) =
     ''Hi'' @ [CHR 0x0A] @ [CHR 0x20, CHR 0x09] @ [CHR 0x0A] @ ''there'' @ [CHR 0x0A] @ ''more''"
  unfolding stripTags_blank_text
  by (rule trim_eqI[where pre = "''  ''" and post = "[CHR 0x20, CHR 0x0A]"]) simp_all

lemma lines_blank_text:
  "take 2 (filter (\<lambda>l. \<not> set l \<subseteq> whiteSpaceCodes)
     (splitLines (''Hi'' @ [CHR 0x0A] @ [CHR 0x20, CHR 0x09] @ [CHR 0x0A] @ ''there'' @ [CHR 0x0A]
        @ ''more'')))
   = [''Hi'', ''there'']"
  by simp

lemma stripTags_cut_text: "stripTags cut_text = cut_text"
  by (rule stripTags_plain) (simp add: cut_text_def)

lemma trim_cut_text: "trim cut_text = cut_text"
  by (rule trim_eqI[where pre = "[]" and post = "[]"]) (simp_all add: cut_text_def hd_append)

lemma lines_cut_text:
  "take 1 (filter (\<lambda>l. \<not> set l \<subseteq> whiteSpaceCodes) (splitLines cut_text)) = [cut_text]"
proof -
  have "splitLines cut_text = [cut_text]"
    by (rule splitLines_plain) (simp add: cut_text_def)
  moreover have "CHR ''x'' \<in> set cut_text"
    by (simp add: cut_text_def)
  ultimately show ?thesis
    by auto
qed

lemma take_cut_text: "take 80 cut_text = replicate 78 (CHR ''x'') @ ''  ''"
  by (simp add: cut_text_def)

lemma trim_take_cut_text: "trim (replicate 78 (CHR ''x'') @ ''  '') = replicate 78 (CHR ''x'')"
  by (rule trim_eqI[where pre = "[]" and post = "''  ''"]) (simp_all add: hd_append)

subsection \<open>Facts about headers and clicks\<close>

fun nodeHeader :: "node \<Rightarrow> header option" where
  "nodeHeader (GroupEl h _) = Some h"
| "nodeHeader _ = None"

text \<open>A header is consistent with a state when the flag that its handler captured is the
  membership of its key in the set of its level.\<close>

definition consistent :: "view \<Rightarrow> header \<Rightarrow> bool" where
  "consistent v h \<longleftrightarrow> hIsCollapsed h = (hGroupKey h \<in> collapsedSetFor v (hLevel h))"

lemma click_flips:
  assumes "consistent v h"
  shows "(hGroupKey h \<in> collapsedSetFor (click h v) (hLevel h)) = (hGroupKey h \<notin> collapsedSetFor v (hLevel h))"
    and "k \<noteq> hGroupKey h \<Longrightarrow> (k \<in> collapsedSetFor (click h v) l) = (k \<in> collapsedSetFor v l)"
    and "isSubLevel l \<noteq> isSubLevel (hLevel h) \<Longrightarrow> collapsedSetFor (click h v) l = collapsedSetFor v l"
  using assms by (auto simp: consistent_def click_def collapsedSetFor_def)

lemma click_twice:
  assumes "consistent v h" and "consistent (click h v) h'"
    and "hGroupKey h' = hGroupKey h" and "hLevel h' = hLevel h"
  shows "click h' (click h v) = v"
proof (cases "isSubLevel (hLevel h)")
  case True
  show ?thesis
  proof (cases "hGroupKey h \<in> collapsedSubGroups v")
    case in_set: True
    with assms True have "hIsCollapsed h" "\<not> hIsCollapsed h'"
      by (auto simp: consistent_def click_def collapsedSetFor_def)
    with assms True in_set show ?thesis
      by (simp add: click_def insert_absorb)
  next
    case not_in: False
    with assms True have "\<not> hIsCollapsed h" "hIsCollapsed h'"
      by (auto simp: consistent_def click_def collapsedSetFor_def)
    with assms True not_in show ?thesis
      by (simp add: click_def)
  qed
next
  case False
  show ?thesis
  proof (cases "hGroupKey h \<in> collapsedGroups v")
    case in_set: True
    with assms False have "hIsCollapsed h" "\<not> hIsCollapsed h'"
      by (auto simp: consistent_def click_def collapsedSetFor_def)
    with assms False in_set show ?thesis
      by (simp add: click_def insert_absorb)
  next
    case not_in: False
    with assms \<open>\<not> isSubLevel (hLevel h)\<close> have "\<not> hIsCollapsed h" "hIsCollapsed h'"
      by (auto simp: consistent_def click_def collapsedSetFor_def)
    with assms \<open>\<not> isSubLevel (hLevel h)\<close> not_in show ?thesis
      by (simp add: click_def)
  qed
qed

lemma renderCustomGroup_header:
  "\<exists>h kids. renderCustomGroup v nativeKey groupKey entries levelOffset sgc = GroupEl h kids
     \<and> hLevel h = levelAt levelOffset
     \<and> hGroupKey h = (if nativeKey \<noteq> [] then nativeKey @ ''::'' @ groupKey else groupKey)
     \<and> consistent v h"
  by (auto simp: renderCustomGroup_def renderGroupHeader_def Let_def consistent_def collapsedSetFor_def)

lemma renderSubGroup_header:
  "\<exists>h kids. renderSubGroup v nativeKey groupKey (levelAt (Suc levelOffset)) sgc (subGroupKey, subEntries) = GroupEl h kids
     \<and> hLevel h = levelAt (Suc levelOffset)
     \<and> hGroupKey h = (if nativeKey \<noteq> [] then nativeKey @ ''::'' @ groupKey @ ''::'' @ subGroupKey
                      else groupKey @ '':'' @ subGroupKey)
     \<and> hIsCollapsed h = (hGroupKey h \<in> collapsedSubGroups v)"
  by (auto simp: renderSubGroup_def renderGroupHeader_def Let_def)

lemma renderGroupWithSubGroups_header:
  "\<exists>h kids. renderGroupWithSubGroups v nativeKey groupKey entries sub levelOffset sgc = GroupEl h kids
     \<and> hLevel h = levelAt levelOffset
     \<and> hGroupKey h = (if nativeKey \<noteq> [] then nativeKey @ ''::'' @ groupKey else groupKey)
     \<and> consistent v h
     \<and> (if hIsCollapsed h then kids = []
         else map (map_option hGroupKey \<circ> nodeHeader) kids =
              map (\<lambda>(subGroupKey, subEntries).
                     Some (if nativeKey \<noteq> [] then nativeKey @ ''::'' @ groupKey @ ''::'' @ subGroupKey
                           else groupKey @ '':'' @ subGroupKey))
                (groupEntriesByProperty entries sub))"
  by (auto simp: renderGroupWithSubGroups_def renderSubGroup_def renderGroupHeader_def Let_def
      consistent_def collapsedSetFor_def)

text \<open>
  A click on the header of a plugin group or of a sub-group, the render that follows, and
  a click on the header of the same group in that render lead back to the state before the
  first click.
\<close>

lemma custom_group_toggle_twice:
  assumes "renderCustomGroup v nativeKey groupKey entries levelOffset sgc = GroupEl h kids"
    and "renderCustomGroup (click h v) nativeKey groupKey entries levelOffset sgc = GroupEl h' kids'"
  shows "click h' (click h v) = v"
proof -
  from renderCustomGroup_header[of v nativeKey groupKey entries levelOffset sgc] assms(1)
  have h: "consistent v h" "hLevel h = levelAt levelOffset"
    "hGroupKey h = (if nativeKey \<noteq> [] then nativeKey @ ''::'' @ groupKey else groupKey)"
    by auto
  from renderCustomGroup_header[of "click h v" nativeKey groupKey entries levelOffset sgc] assms(2)
  have h': "consistent (click h v) h'" "hLevel h' = levelAt levelOffset"
    "hGroupKey h' = (if nativeKey \<noteq> [] then nativeKey @ ''::'' @ groupKey else groupKey)"
    by auto
  from h h' show ?thesis
    by (intro click_twice) simp_all
qed

lemma primary_group_toggle_twice:
  assumes "renderGroupWithSubGroups v nativeKey groupKey entries sub levelOffset sgc = GroupEl h kids"
    and "renderGroupWithSubGroups (click h v) nativeKey groupKey entries sub levelOffset sgc
         = GroupEl h' kids'"
  shows "click h' (click h v) = v"
proof -
  from renderGroupWithSubGroups_header[of v nativeKey groupKey entries sub levelOffset sgc] assms(1)
  have h: "consistent v h" "hLevel h = levelAt levelOffset"
    "hGroupKey h = (if nativeKey \<noteq> [] then nativeKey @ ''::'' @ groupKey else groupKey)"
    by auto
  from renderGroupWithSubGroups_header[of "click h v" nativeKey groupKey entries sub levelOffset sgc]
    assms(2)
  have h': "consistent (click h v) h'" "hLevel h' = levelAt levelOffset"
    "hGroupKey h' = (if nativeKey \<noteq> [] then nativeKey @ ''::'' @ groupKey else groupKey)"
    by auto
  from h h' show ?thesis
    by (intro click_twice) simp_all
qed

lemma sub_group_toggle_twice:
  assumes "levelOffset \<le> 1"
    and "renderSubGroup v nativeKey groupKey (levelAt (Suc levelOffset)) sgc sg = GroupEl h kids"
    and "renderSubGroup (click h v) nativeKey groupKey (levelAt (Suc levelOffset)) sgc sg
         = GroupEl h' kids'"
  shows "click h' (click h v) = v"
proof -
  obtain subGroupKey subEntries where sg: "sg = (subGroupKey, subEntries)"
    by (cases sg)
  from assms(1) have sub: "isSubLevel (levelAt (Suc levelOffset))"
    by (cases levelOffset) (auto simp: isSubLevel_def levelAt_def levels_def)
  from renderSubGroup_header[of v nativeKey groupKey levelOffset sgc subGroupKey subEntries]
    assms(2) sg sub
  have h: "consistent v h" "hLevel h = levelAt (Suc levelOffset)"
    "hGroupKey h = (if nativeKey \<noteq> [] then nativeKey @ ''::'' @ groupKey @ ''::'' @ subGroupKey
                    else groupKey @ '':'' @ subGroupKey)"
    by (auto simp: consistent_def collapsedSetFor_def)
  from renderSubGroup_header[of "click h v" nativeKey groupKey levelOffset sgc subGroupKey subEntries]
    assms(3) sg sub
  have h': "consistent (click h v) h'" "hLevel h' = levelAt (Suc levelOffset)"
    "hGroupKey h' = (if nativeKey \<noteq> [] then nativeKey @ ''::'' @ groupKey @ ''::'' @ subGroupKey
                     else groupKey @ '':'' @ subGroupKey)"
    by (auto simp: consistent_def collapsedSetFor_def)
  from h h' show ?thesis
    by (intro click_twice) simp_all
qed

text \<open>
  An example: a native group whose key is a link, rendered without plugin grouping from
  the state in which nothing is collapsed; \<open>wiki_header\<close> is the header that
  \<open>renderGroupHeader\<close> makes for it.
\<close>

definition wiki_group :: nativeGroup where
  "wiki_group = \<lparr>gHasKey = True, gKey = Some ''[[A]]'', gEntries = [note_entry ''a.md'' ''done'']\<rparr>"

definition flat_config :: config where
  "flat_config = \<lparr>primaryGroup = None, subGroup = None, showGroupCounts = True\<rparr>"

definition wiki_header :: header where
  "wiki_header = \<lparr>hLevel = Some primary, hTitle = ''A'', hCount = Some 1, hIsCollapsed = False, hGroupKey = ''A''\<rparr>"

definition expanded :: view where
  "expanded = \<lparr>collapsedGroups = {}, collapsedSubGroups = {}\<rparr>"

lemma consistent_expanded: "consistent expanded h \<Longrightarrow> \<not> hIsCollapsed h"
  by (simp add: consistent_def collapsedSetFor_def expanded_def)

lemma note_entries_by_folder:
  "groupEntriesByProperty [note_entry ''a.md'' ''done'', note_entry ''b.md'' ''todo''] ''file.folder''
     = [(''Root'', [note_entry ''a.md'' ''done'', note_entry ''b.md'' ''todo''])]"
proof -
  have k: "getPropertyValueAsString (note_entry p st) ''file.folder'' = ''Root''" for p st
    by (simp add: getPropertyValueAsString_def groupAccessorStep_def groupFrontmatterStep_def
        note_entry_def startsWith_def)
  show ?thesis
    by (simp add: groupEntriesByProperty_def groupStep_def mapHas_def mapSet_def mapPush_def Let_def k)
qed

section \<open>The claims\<close>

subsection \<open>C1: the buckets partition the entries\<close>

text \<open>
  C1: for every sequence of entries \<open>E\<close> and property id \<open>P\<close>, the keys of
  \<open>groupEntriesByProperty E P\<close> are the resolved keys of the entries in first-seen order,
  each once; the bucket of a key holds exactly the entries that resolve to it, in their
  input order, and is not empty; every entry of \<open>E\<close> is in exactly one bucket, the one of
  its key; and the buckets together hold the entries of \<open>E\<close> with their multiplicities
  (none dropped, none duplicated), so their lengths add up to the length of \<open>E\<close>.
\<close>

theorem groupEntriesByProperty_partition:
  "map fst (groupEntriesByProperty E P) = first_seen (map (\<lambda>e. getPropertyValueAsString e P) E)
   \<and> distinct (map fst (groupEntriesByProperty E P))
   \<and> (\<forall>(k, b) \<in> set (groupEntriesByProperty E P).
         b = filter (\<lambda>e. getPropertyValueAsString e P = k) E \<and> b \<noteq> [])
   \<and> (\<forall>e \<in> set E. \<exists>!kb. kb \<in> set (groupEntriesByProperty E P) \<and> e \<in> set (snd kb))
   \<and> (\<forall>e \<in> set E. \<forall>(k, b) \<in> set (groupEntriesByProperty E P).
         e \<in> set b \<longleftrightarrow> k = getPropertyValueAsString e P)
   \<and> mset (concat (map snd (groupEntriesByProperty E P))) = mset E
   \<and> sum_list (map (length \<circ> snd) (groupEntriesByProperty E P)) = length E"
proof -
  let ?key = "\<lambda>e. getPropertyValueAsString e P"
  let ?G = "groupEntriesByProperty E P"
  let ?ks = "first_seen (map ?key E)"
  have G: "?G = map (\<lambda>k. (k, filter (\<lambda>e. ?key e = k) E)) ?ks"
    by (rule groupEntriesByProperty_eq)
  have keys: "map fst ?G = ?ks"
    by (simp add: G comp_def)
  have dist: "distinct (map fst ?G)"
    by (simp only: keys distinct_first_seen)
  have buckets: "\<forall>(k, b) \<in> set ?G. b = filter (\<lambda>e. ?key e = k) E \<and> b \<noteq> []"
  proof -
    have "filter (\<lambda>e. ?key e = k) E \<noteq> []" if "k \<in> set ?ks" for k
    proof -
      from that obtain e where "e \<in> set E" "?key e = k"
        by (auto simp: set_first_seen)
      then show ?thesis by (auto simp: filter_empty_conv)
    qed
    then show ?thesis by (auto simp: G)
  qed
  have member: "\<forall>e \<in> set E. \<forall>(k, b) \<in> set ?G. e \<in> set b \<longleftrightarrow> k = ?key e"
    by (auto simp: G)
  have one: "\<forall>e \<in> set E. \<exists>!kb. kb \<in> set ?G \<and> e \<in> set (snd kb)"
  proof
    fix e assume e: "e \<in> set E"
    let ?kb = "(?key e, filter (\<lambda>e'. ?key e' = ?key e) E)"
    from e have "?key e \<in> set ?ks" by (simp add: set_first_seen)
    then have "?kb \<in> set ?G" by (auto simp: G)
    moreover from e have "e \<in> set (snd ?kb)" by simp
    moreover have "kb = ?kb" if "kb \<in> set ?G" "e \<in> set (snd kb)" for kb
      using that by (auto simp: G)
    ultimately show "\<exists>!kb. kb \<in> set ?G \<and> e \<in> set (snd kb)" by blast
  qed
  have "mset (concat (map snd ?G)) = mset (filter (\<lambda>e. ?key e \<in> set ?ks) E)"
    using mset_concat_buckets[OF distinct_first_seen, of ?key E "map ?key E"]
    by (simp add: G comp_def)
  also have "\<dots> = mset E"
    by (simp add: set_first_seen)
  finally have ms: "mset (concat (map snd ?G)) = mset E" .
  have "sum_list (map (length \<circ> snd) ?G) = length (concat (map snd ?G))"
    by (simp add: length_concat comp_def)
  also have "\<dots> = length E"
    using ms by (metis size_mset)
  finally have cnt: "sum_list (map (length \<circ> snd) ?G) = length E" .
  from keys dist buckets one member ms cnt show ?thesis by blast
qed

theorem groupEntriesByProperty_partition_witness:
  "map (\<lambda>(k, b). (k, map path b))
     (groupEntriesByProperty
        [note_entry ''a.md'' ''done'', note_entry ''b.md'' ''done'', note_entry ''c.md'' ''todo'']
        ''note.status'')
   = [(''done'', [''a.md'', ''b.md'']), (''todo'', [''c.md''])]
   \<and> mset (concat (map snd (groupEntriesByProperty
        [note_entry ''a.md'' ''done'', note_entry ''b.md'' ''done'', note_entry ''c.md'' ''todo'']
        ''note.status'')))
     = mset [note_entry ''a.md'' ''done'', note_entry ''b.md'' ''done'', note_entry ''c.md'' ''todo'']"
proof -
  let ?E = "[note_entry ''a.md'' ''done'', note_entry ''b.md'' ''done'', note_entry ''c.md'' ''todo'']"
  have k: "getPropertyValueAsString (note_entry p ''done'') ''note.status'' = ''done''"
    "getPropertyValueAsString (note_entry p ''todo'') ''note.status'' = ''todo''" for p
    by (simp_all add: getPropertyValueAsString_def groupAccessorStep_def groupFrontmatterStep_def
        note_entry_def startsWith_def frontmatterValue_def valueToGroupString.simps wikilink_at_not_open)
  have g: "groupEntriesByProperty ?E ''note.status''
         = [(''done'', [note_entry ''a.md'' ''done'', note_entry ''b.md'' ''done'']),
            (''todo'', [note_entry ''c.md'' ''todo''])]"
    by (simp add: groupEntriesByProperty_def groupStep_def mapHas_def mapSet_def mapPush_def Let_def k)
  have p: "path (note_entry q st) = q" for q st
    by (simp add: note_entry_def)
  from groupEntriesByProperty_partition[of ?E "''note.status''"]
  have "mset (concat (map snd (groupEntriesByProperty ?E ''note.status''))) = mset ?E"
    by blast
  then show ?thesis
    by (simp add: g p)
qed

subsection \<open>C2: stripping inline references twice\<close>

text \<open>
  C2 says that \<open>stripWikilinks\<close> is idempotent on every string. It is not: the first group
  of the pattern excludes only the closing bracket, so a link text may itself hold opening
  brackets, and what is substituted for the outer link can complete a new link with the
  text that follows.

  C2 as amended: stripping twice equals stripping once for every string in which no
  substituted display text (the alias when there is one, the link target otherwise)
  contains an opening bracket.
\<close>

theorem stripWikilinks_idempotent:
  assumes "\<forall>D\<in>set (link_displays s). CHR ''['' \<notin> set D"
  shows "stripWikilinks (stripWikilinks s) = stripWikilinks s"
proof -
  from assms have "no_wikilink (stripWikilinks s)"
    by (rule no_wikilink_stripWikilinks)
  then show ?thesis
    by (rule stripWikilinks_no_wikilink)
qed

theorem stripWikilinks_idempotent_witness:
  "link_displays ''see [[a|b]] and [[c]]'' = [''b'', ''c'']
   \<and> stripWikilinks ''see [[a|b]] and [[c]]'' = ''see b and c''
   \<and> stripWikilinks (stripWikilinks ''see [[a|b]] and [[c]]'')
       = stripWikilinks ''see [[a|b]] and [[c]]''"
proof -
  have d: "link_displays ''see [[a|b]] and [[c]]'' = [''b'', ''c'']"
    by code_simp
  have s: "stripWikilinks ''see [[a|b]] and [[c]]'' = ''see b and c''"
    by code_simp
  have "\<forall>D\<in>set (link_displays ''see [[a|b]] and [[c]]''). CHR ''['' \<notin> set D"
    unfolding d by simp
  from stripWikilinks_idempotent[OF this] d s show ?thesis
    by simp
qed

theorem stripWikilinks_not_idempotent:
  "stripWikilinks ''[[[[a]]]]'' = ''[[a]]''
   \<and> stripWikilinks (stripWikilinks ''[[[[a]]]]'') = ''a''
   \<and> stripWikilinks (stripWikilinks ''[[[[a]]]]'') \<noteq> stripWikilinks ''[[[[a]]]]''"
  by code_simp

subsection \<open>C3: the fallback chain after an unusable accessor value\<close>

text \<open>
  C3 says that a value of the accessor whose string is empty, \<open>null\<close> or \<open>undefined\<close>
  counts as no value and that resolution then goes on to the frontmatter, for the subtitle
  and for grouping alike. \<open>getSubtitleText\<close> does so. \<open>getPropertyValueAsString\<close> returns
  from its \<open>try\<close> block for every truthy value: for \<open>stale_entry\<close>, whose accessor gives
  an object printing as \<open>null\<close> and whose frontmatter has \<open>status: done\<close>, the group key
  is \<open>None\<close>, though the frontmatter step would give \<open>done\<close> and the subtitle is
  \<open>done\<close>.
\<close>

theorem grouping_skips_frontmatter_fallback:
  "getValue stale_entry ''note.status'' = Returns (JObj ''null'')
   \<and> toString (JObj ''null'') = ''null''
   \<and> groupFrontmatterStep stale_entry ''note.status'' = Some ''done''
   \<and> getPropertyValueAsString stale_entry ''note.status'' = ''None''
   \<and> getSubtitleText stale_entry ''note.status'' = Some ''done''"
  by (simp add: stale_entry_def getPropertyValueAsString_def groupAccessorStep_def
      groupFrontmatterStep_def getSubtitleText_def subtitleAccessorStep_def
      subtitleFrontmatterStep_def SUBTITLE_PARENT_FOLDER_def frontmatterValue_def
      startsWith_def valueToGroupString.simps wikilink_at_not_open)

subsection \<open>C4: composite collapse keys\<close>

text \<open>
  C4: the header of a plugin group has the key \<open>nativeKey + "::" + groupKey\<close> when the
  native key is present (\<open>nativeKey\<close> is not the empty string) and the bare \<open>groupKey\<close>
  otherwise, for \<open>renderCustomGroup\<close> and for the first level of
  \<open>renderGroupWithSubGroups\<close>; the headers of the sub-groups, in the order of the
  sub-groups, have the keys \<open>nativeKey + "::" + groupKey + "::" + subGroupKey\<close> when the
  native key is present and \<open>groupKey + ":" + subGroupKey\<close> otherwise. The collapsed flag
  of each header is the membership of that key in the set of its level.
\<close>

theorem composite_collapse_keys:
  "(\<exists>h kids. renderCustomGroup v nativeKey groupKey entries levelOffset sgc = GroupEl h kids
       \<and> hLevel h = levelAt levelOffset
       \<and> hGroupKey h = (if nativeKey \<noteq> [] then nativeKey @ ''::'' @ groupKey else groupKey)
       \<and> consistent v h)
   \<and> (\<exists>h kids. renderGroupWithSubGroups v nativeKey groupKey entries sub levelOffset sgc = GroupEl h kids
       \<and> hLevel h = levelAt levelOffset
       \<and> hGroupKey h = (if nativeKey \<noteq> [] then nativeKey @ ''::'' @ groupKey else groupKey)
       \<and> consistent v h
       \<and> (if hIsCollapsed h then kids = []
           else map (map_option hGroupKey \<circ> nodeHeader) kids =
                map (\<lambda>(subGroupKey, subEntries).
                       Some (if nativeKey \<noteq> [] then nativeKey @ ''::'' @ groupKey @ ''::'' @ subGroupKey
                             else groupKey @ '':'' @ subGroupKey))
                  (groupEntriesByProperty entries sub)))"
  by (rule conjI[OF renderCustomGroup_header renderGroupWithSubGroups_header])

theorem composite_collapse_keys_witness:
  "(\<exists>h kids. renderCustomGroup expanded ''Work'' ''done''
        [note_entry ''a.md'' ''done'', note_entry ''b.md'' ''todo''] 1 True = GroupEl h kids
      \<and> hGroupKey h = ''Work::done'')
   \<and> (\<exists>h kids. renderGroupWithSubGroups expanded ''Work'' ''done''
        [note_entry ''a.md'' ''done'', note_entry ''b.md'' ''todo''] ''file.folder'' 1 True = GroupEl h kids
      \<and> hGroupKey h = ''Work::done''
      \<and> map (map_option hGroupKey \<circ> nodeHeader) kids = [Some ''Work::done::Root''])
   \<and> (\<exists>h kids. renderCustomGroup expanded [] ''done''
        [note_entry ''a.md'' ''done'', note_entry ''b.md'' ''todo''] 0 True = GroupEl h kids
      \<and> hGroupKey h = ''done'')
   \<and> (\<exists>h kids. renderGroupWithSubGroups expanded [] ''done''
        [note_entry ''a.md'' ''done'', note_entry ''b.md'' ''todo''] ''file.folder'' 0 True = GroupEl h kids
      \<and> hGroupKey h = ''done''
      \<and> map (map_option hGroupKey \<circ> nodeHeader) kids = [Some ''done:Root''])"
proof -
  let ?E = "[note_entry ''a.md'' ''done'', note_entry ''b.md'' ''todo'']"
  note native = composite_collapse_keys[where v = expanded and nativeKey = "''Work''"
      and groupKey = "''done''" and entries = ?E and levelOffset = 1 and sgc = True
      and sub = "''file.folder''"]
  note bare = composite_collapse_keys[where v = expanded and nativeKey = "[]"
      and groupKey = "''done''" and entries = ?E and levelOffset = 0 and sgc = True
      and sub = "''file.folder''"]
  from native have n1: "\<exists>h kids. renderCustomGroup expanded ''Work'' ''done'' ?E 1 True = GroupEl h kids
      \<and> hGroupKey h = ''Work::done''"
    by auto
  from native have n2: "\<exists>h kids. renderGroupWithSubGroups expanded ''Work'' ''done'' ?E ''file.folder'' 1 True
        = GroupEl h kids
      \<and> hGroupKey h = ''Work::done''
      \<and> map (map_option hGroupKey \<circ> nodeHeader) kids = [Some ''Work::done::Root'']"
    by (auto simp: note_entries_by_folder dest: consistent_expanded)
  from bare have b1: "\<exists>h kids. renderCustomGroup expanded [] ''done'' ?E 0 True = GroupEl h kids
      \<and> hGroupKey h = ''done''"
    by auto
  from bare have b2: "\<exists>h kids. renderGroupWithSubGroups expanded [] ''done'' ?E ''file.folder'' 0 True
        = GroupEl h kids
      \<and> hGroupKey h = ''done''
      \<and> map (map_option hGroupKey \<circ> nodeHeader) kids = [Some ''done:Root'']"
    by (auto simp: note_entries_by_folder dest: consistent_expanded)
  from n1 n2 b1 b2 show ?thesis
    by (intro conjI)
qed

subsection \<open>C5: toggling twice\<close>

text \<open>
  C5 says that a toggle flips the membership of the group's key in the set of its role, so
  that two toggles restore the state. The handler adds or removes its key according to the
  flag \<open>isCollapsed\<close> that the caller computed. For the plugin groups and the sub-groups
  the caller looked up the key that the handler uses (\<open>custom_group_toggle_twice\<close>,
  \<open>primary_group_toggle_twice\<close>, \<open>sub_group_toggle_twice\<close>). For a native group the
  caller looks up \<open>nativeKey\<close>, but the handler uses the title, which is the key with its
  inline references stripped: for the native key \<open>[[A]]\<close> the first click adds \<open>A\<close>, the
  next render finds \<open>[[A]]\<close> not collapsed, and the second click adds \<open>A\<close> again. The
  state after two clicks is not the state before them, and the group never collapses.
\<close>

theorem native_header_toggle_not_flip:
  "onDataUpdated expanded flat_config [wiki_group]
     = [GroupEl wiki_header [EntriesEl (gEntries wiki_group)]]
   \<and> click wiki_header expanded = \<lparr>collapsedGroups = {''A''}, collapsedSubGroups = {}\<rparr>
   \<and> onDataUpdated (click wiki_header expanded) flat_config [wiki_group]
     = [GroupEl wiki_header [EntriesEl (gEntries wiki_group)]]
   \<and> click wiki_header (click wiki_header expanded) = \<lparr>collapsedGroups = {''A''}, collapsedSubGroups = {}\<rparr>
   \<and> click wiki_header (click wiki_header expanded) \<noteq> expanded"
  by (simp add: onDataUpdated_def renderNativeGroup_def renderPluginGroups_def
      renderGroupHeader_def click_def isSubLevel_def expanded_def flat_config_def wiki_group_def
      wiki_header_def wikilink_at_def link_display_def)

subsection \<open>C6: the test vectors of the relative date\<close>

text \<open>
  C6 lists five vectors; one of them, \<open>1d ago\<close> for 25 hours, is not what the code gives:
  25 hours are one whole day, and for one day the text is \<open>Yesterday\<close>.

  C6 as amended: a timestamp equal to now yields \<open>Just now\<close>; now minus 90 seconds
  yields \<open>1m ago\<close>; now minus 25 hours yields \<open>Yesterday\<close>; now minus exactly 24 hours
  yields \<open>Yesterday\<close>; now minus 400 days yields \<open>1y ago\<close>.
\<close>

theorem formatRelativeDate_vectors:
  "formatRelativeDate now now = ''Just now''
   \<and> formatRelativeDate now (now - 90 * 1000) = ''1m ago''
   \<and> formatRelativeDate now (now - 25 * 3600 * 1000) = ''Yesterday''
   \<and> formatRelativeDate now (now - 24 * 3600 * 1000) = ''Yesterday''
   \<and> formatRelativeDate now (now - 400 * 24 * 3600 * 1000) = ''1y ago''"
  by (simp add: formatRelativeDate_def numberToString_1)

theorem formatRelativeDate_25h:
  "formatRelativeDate 1000000000 (1000000000 - 25 * 3600 * 1000) = ''Yesterday''
   \<and> formatRelativeDate 1000000000 (1000000000 - 25 * 3600 * 1000) \<noteq> ''1d ago''"
  by (simp add: formatRelativeDate_def)

subsection \<open>C7: truncation to lines\<close>

text \<open>
  C7: for every text \<open>s\<close> and every \<open>n\<close> (also for \<open>n = 0\<close>, which no caller passes),
  \<open>truncateToLines s n\<close> works on the text without its tags, in which no tag is left, and
  without the white space at its two ends: what is left is empty or begins and ends with
  a character that is not white space. It keeps the first \<open>n\<close> lines that are not blank,
  a blank line being one whose characters are all white space: at most \<open>n\<close> lines, each
  with a character that is not white space and none with a line feed. It joins them with
  one space; where the joined text has at most \<open>n * 80\<close> characters it is the result;
  where it has more, the result is the joined text cut at \<open>n * 80\<close> characters, without
  the white space at the two ends of the cut, so at most \<open>n * 80\<close> characters, followed by
  the ellipsis. The result has no tag and no line feed. White space is the seven code
  units of \<open>whiteSpaceCodes\<close>.
\<close>

theorem truncateToLines_spec:
  "\<exists>pre stripped post kept.
       stripTags s = pre @ stripped @ post
     \<and> set pre \<subseteq> whiteSpaceCodes \<and> set post \<subseteq> whiteSpaceCodes
     \<and> (stripped = [] \<or> (hd stripped \<notin> whiteSpaceCodes \<and> last stripped \<notin> whiteSpaceCodes))
     \<and> \<not> has_tag (stripTags s)
     \<and> kept = take n (filter (\<lambda>l. \<not> set l \<subseteq> whiteSpaceCodes) (splitLines stripped))
     \<and> length kept \<le> n
     \<and> (\<forall>l \<in> set kept. (\<exists>c \<in> set l. c \<notin> whiteSpaceCodes) \<and> CHR 0x0A \<notin> set l)
     \<and> (length (join '' '' kept) \<le> n * 80 \<longrightarrow> truncateToLines s n = join '' '' kept)
     \<and> (n * 80 < length (join '' '' kept) \<longrightarrow>
          (\<exists>pre' body post'.
               take (n * 80) (join '' '' kept) = pre' @ body @ post'
             \<and> set pre' \<subseteq> whiteSpaceCodes \<and> set post' \<subseteq> whiteSpaceCodes
             \<and> (body = [] \<or> (hd body \<notin> whiteSpaceCodes \<and> last body \<notin> whiteSpaceCodes))
             \<and> length body \<le> n * 80
             \<and> truncateToLines s n = body @ ''...''))
     \<and> \<not> has_tag (truncateToLines s n)
     \<and> CHR 0x0A \<notin> set (truncateToLines s n)"
proof -
  let ?stripped = "trim (stripTags s)"
  let ?kept = "keptLines s n"
  let ?j = "join '' '' ?kept"
  let ?body = "trim (take (n * 80) ?j)"
  from trim_decomp[of "stripTags s"] obtain pre post where
    dec: "stripTags s = pre @ ?stripped @ post"
      "set pre \<subseteq> whiteSpaceCodes" "set post \<subseteq> whiteSpaceCodes"
      "?stripped = [] \<or> (hd ?stripped \<notin> whiteSpaceCodes \<and> last ?stripped \<notin> whiteSpaceCodes)"
    by blast
  have kept: "?kept = take n (filter (\<lambda>l. \<not> set l \<subseteq> whiteSpaceCodes) (splitLines ?stripped))"
    by (rule keptLines_nonblank)
  have len_kept: "length ?kept \<le> n"
    by (simp add: keptLines_def)
  have lines: "\<forall>l \<in> set ?kept. (\<exists>c \<in> set l. c \<notin> whiteSpaceCodes) \<and> CHR 0x0A \<notin> set l"
  proof
    fix l assume l: "l \<in> set ?kept"
    then have "l \<in> set (splitLines ?stripped)" "\<not> set l \<subseteq> whiteSpaceCodes"
      unfolding kept by (auto dest!: in_set_takeD)
    then show "(\<exists>c \<in> set l. c \<notin> whiteSpaceCodes) \<and> CHR 0x0A \<notin> set l"
      by (auto dest: splitLines_no_LF)
  qed
  have short: "length ?j \<le> n * 80 \<longrightarrow> truncateToLines s n = ?j"
    by (simp add: truncateToLines_keptLines)
  have long: "\<exists>pre' body post'.
               take (n * 80) ?j = pre' @ body @ post'
             \<and> set pre' \<subseteq> whiteSpaceCodes \<and> set post' \<subseteq> whiteSpaceCodes
             \<and> (body = [] \<or> (hd body \<notin> whiteSpaceCodes \<and> last body \<notin> whiteSpaceCodes))
             \<and> length body \<le> n * 80
             \<and> truncateToLines s n = body @ ''...''" if cut: "n * 80 < length ?j"
  proof -
    from trim_decomp[of "take (n * 80) ?j"] obtain pre' post' where
      d: "take (n * 80) ?j = pre' @ ?body @ post'"
        "set pre' \<subseteq> whiteSpaceCodes" "set post' \<subseteq> whiteSpaceCodes"
        "?body = [] \<or> (hd ?body \<notin> whiteSpaceCodes \<and> last ?body \<notin> whiteSpaceCodes)"
      by blast
    have "length ?body \<le> n * 80"
      using length_trim_le[of "take (n * 80) ?j"] by simp
    moreover from cut have "truncateToLines s n = ?body @ ''...''"
      by (simp add: truncateToLines_keptLines)
    ultimately show ?thesis
      using d by blast
  qed
  have sub: "subseq ?body ?j"
    by (rule subseq_order.order_trans[OF sublist_imp_subseq[OF sublist_trim] prefix_imp_subseq[OF take_is_prefix]])
  have nt_body: "\<not> has_tag ?body"
    using has_tag_subseq[OF sub] no_tag_join_keptLines by blast
  have "has_tag (?body @ ''...'') = has_tag (filter angle (?body @ ''...''))"
    by (simp only: has_tag_filter)
  also have "\<dots> = has_tag ?body"
    by (simp add: has_tag_filter)
  finally have nt_cut: "\<not> has_tag (?body @ ''...'')"
    using nt_body by simp
  have nt: "\<not> has_tag (truncateToLines s n)"
    using nt_cut no_tag_join_keptLines by (simp add: truncateToLines_keptLines)
  have lfj: "CHR 0x0A \<notin> set ?j"
    using set_join_space[of ?kept] lines by auto
  then have "CHR 0x0A \<notin> set ?body"
    using set_trim[of "take (n * 80) ?j"] by (auto dest: in_set_takeD)
  with lfj have lf: "CHR 0x0A \<notin> set (truncateToLines s n)"
    by (simp add: truncateToLines_keptLines)
  from long have long': "n * 80 < length ?j \<longrightarrow>
          (\<exists>pre' body post'.
               take (n * 80) ?j = pre' @ body @ post'
             \<and> set pre' \<subseteq> whiteSpaceCodes \<and> set post' \<subseteq> whiteSpaceCodes
             \<and> (body = [] \<or> (hd body \<notin> whiteSpaceCodes \<and> last body \<notin> whiteSpaceCodes))
             \<and> length body \<le> n * 80
             \<and> truncateToLines s n = body @ ''...'')"
    by blast
  show ?thesis
    apply (rule exI[where x = pre])
    apply (rule exI[where x = ?stripped])
    apply (rule exI[where x = post])
    apply (rule exI[where x = ?kept])
    apply (intro conjI)
    apply (rule dec(1))
    apply (rule dec(2))
    apply (rule dec(3))
    apply (rule dec(4))
    apply (rule no_tag_stripTags)
    apply (rule kept)
    apply (rule len_kept)
    apply (rule lines)
    apply (rule short)
    apply (rule long')
    apply (rule nt)
    apply (rule lf)
    done
qed

theorem truncateToLines_spec_witness:
  "stripTags blank_text =
     ''  Hi'' @ [CHR 0x0A] @ [CHR 0x20, CHR 0x09] @ [CHR 0x0A] @ ''there'' @ [CHR 0x0A]
     @ ''more '' @ [CHR 0x0A]
   \<and> truncateToLines blank_text 2 = ''Hi there''
   \<and> length cut_text = 82
   \<and> truncateToLines cut_text 1 = replicate 78 (CHR ''x'') @ ''...''"
proof -
  from truncateToLines_spec[of blank_text 2] obtain pre stripped post kept where
    b: "stripTags blank_text = pre @ stripped @ post"
      "set pre \<subseteq> whiteSpaceCodes" "set post \<subseteq> whiteSpaceCodes"
      "stripped = [] \<or> (hd stripped \<notin> whiteSpaceCodes \<and> last stripped \<notin> whiteSpaceCodes)"
      "kept = take 2 (filter (\<lambda>l. \<not> set l \<subseteq> whiteSpaceCodes) (splitLines stripped))"
      "length (join '' '' kept) \<le> 2 * 80 \<longrightarrow> truncateToLines blank_text 2 = join '' '' kept"
    by (elim exE conjE) (rule that)
  from b(1-4) have "trim (stripTags blank_text) = stripped"
    by (rule trim_eqI)
  then have "stripped = ''Hi'' @ [CHR 0x0A] @ [CHR 0x20, CHR 0x09] @ [CHR 0x0A] @ ''there''
      @ [CHR 0x0A] @ ''more''"
    by (simp only: trim_stripTags_blank_text)
  with b(5) have "kept = [''Hi'', ''there'']"
    by (simp only: lines_blank_text)
  then have "join '' '' kept = ''Hi there''"
    by simp
  with b(6) have short: "truncateToLines blank_text 2 = ''Hi there''"
    by simp
  from truncateToLines_spec[of cut_text 1] obtain pre stripped post kept where
    c: "stripTags cut_text = pre @ stripped @ post"
      "set pre \<subseteq> whiteSpaceCodes" "set post \<subseteq> whiteSpaceCodes"
      "stripped = [] \<or> (hd stripped \<notin> whiteSpaceCodes \<and> last stripped \<notin> whiteSpaceCodes)"
      "kept = take 1 (filter (\<lambda>l. \<not> set l \<subseteq> whiteSpaceCodes) (splitLines stripped))"
      "1 * 80 < length (join '' '' kept) \<longrightarrow>
          (\<exists>pre' body post'.
               take (1 * 80) (join '' '' kept) = pre' @ body @ post'
             \<and> set pre' \<subseteq> whiteSpaceCodes \<and> set post' \<subseteq> whiteSpaceCodes
             \<and> (body = [] \<or> (hd body \<notin> whiteSpaceCodes \<and> last body \<notin> whiteSpaceCodes))
             \<and> length body \<le> 1 * 80
             \<and> truncateToLines cut_text 1 = body @ ''...'')"
    by (elim exE conjE) (rule that)
  have len: "length cut_text = 82"
    by (simp add: cut_text_def)
  from c(1-4) have "trim (stripTags cut_text) = stripped"
    by (rule trim_eqI)
  then have "stripped = cut_text"
    by (simp only: stripTags_cut_text trim_cut_text)
  with c(5) have "kept = [cut_text]"
    by (simp only: lines_cut_text)
  then have j: "join '' '' kept = cut_text"
    by simp
  have "1 * 80 < length (join '' '' kept)"
    unfolding j len by simp
  with c(6) have "\<exists>pre' body post'.
               take (1 * 80) (join '' '' kept) = pre' @ body @ post'
             \<and> set pre' \<subseteq> whiteSpaceCodes \<and> set post' \<subseteq> whiteSpaceCodes
             \<and> (body = [] \<or> (hd body \<notin> whiteSpaceCodes \<and> last body \<notin> whiteSpaceCodes))
             \<and> length body \<le> 1 * 80
             \<and> truncateToLines cut_text 1 = body @ ''...''"
    by (rule mp)
  then obtain pre' body post' where
    d: "take (1 * 80) (join '' '' kept) = pre' @ body @ post'"
      "set pre' \<subseteq> whiteSpaceCodes" "set post' \<subseteq> whiteSpaceCodes"
      "body = [] \<or> (hd body \<notin> whiteSpaceCodes \<and> last body \<notin> whiteSpaceCodes)"
      "truncateToLines cut_text 1 = body @ ''...''"
    by (elim exE conjE) (rule that)
  from d(1-4) have "trim (take (1 * 80) (join '' '' kept)) = body"
    by (rule trim_eqI)
  then have "body = replicate 78 (CHR ''x'')"
    unfolding j by (simp only: mult_1 take_cut_text trim_take_cut_text)
  with d(5) have long: "truncateToLines cut_text 1 = replicate 78 (CHR ''x'') @ ''...''"
    by (simp only:)
  from stripTags_blank_text short len long show ?thesis
    by (intro conjI)
qed

subsection \<open>C8: the folder fallback for grouping and for the subtitle\<close>

text \<open>
  C8 says that for the property id \<open>file.folder\<close>, when no earlier step gave a value,
  the group key is the name of the parent folder, or \<open>Root\<close> when the parent folder is
  absent, and the subtitle is that name, or null when the parent folder is absent. Both
  functions test \<open>entry.file.parent?.name\<close> with \<open>||\<close>, so they fall back also when the
  parent folder is there and its name is the empty string: the group key is then \<open>Root\<close>
  and the subtitle null, not the name.

  C8 as amended: for the property id \<open>file.folder\<close>, when the accessor threw or returned
  a falsy value, the group key is the name of the parent folder when there is a parent
  folder and its name is not empty, and \<open>Root\<close> otherwise; the subtitle is the name of the
  parent folder when there is one and its name is not empty, and null otherwise. (Where
  the accessor returns a truthy value the group key comes from that value, see C3; the
  subtitle does not consult the accessor for this id, see \<open>getSubtitleText_file_folder\<close>.)
\<close>

theorem file_folder_fallback:
  assumes "getValue e ''file.folder'' = Throws
           \<or> (\<exists>v. getValue e ''file.folder'' = Returns v \<and> \<not> truthy v)"
  shows "getPropertyValueAsString e ''file.folder'' =
           (case parentName e of
              Some n \<Rightarrow> if n \<noteq> [] then n else ''Root''
            | None \<Rightarrow> ''Root'')
         \<and> getSubtitleText e ''file.folder'' =
           (case parentName e of
              Some n \<Rightarrow> if n \<noteq> [] then Some n else None
            | None \<Rightarrow> None)"
  using assms
  by (auto simp: getPropertyValueAsString_def groupAccessorStep_def groupFrontmatterStep_def
      getSubtitleText_def startsWith_def)

theorem file_folder_fallback_witness:
  "getValue (folder_entry None) ''file.folder'' = Throws
   \<and> getPropertyValueAsString (folder_entry None) ''file.folder'' = ''Root''
   \<and> getSubtitleText (folder_entry None) ''file.folder'' = None
   \<and> getPropertyValueAsString (folder_entry (Some ''Projects'')) ''file.folder'' = ''Projects''
   \<and> getSubtitleText (folder_entry (Some ''Projects'')) ''file.folder'' = Some ''Projects''"
proof -
  have t: "getValue (folder_entry p) ''file.folder'' = Throws" for p
    by (simp add: folder_entry_def)
  have n: "parentName (folder_entry p) = p" for p
    by (simp add: folder_entry_def)
  from file_folder_fallback[of "folder_entry None"] file_folder_fallback[of "folder_entry (Some ''Projects'')"]
  show ?thesis
    by (simp add: t n)
qed

theorem file_folder_empty_parent_name:
  "parentName (folder_entry (Some [])) = Some []
   \<and> getValue (folder_entry (Some [])) ''file.folder'' = Throws
   \<and> getPropertyValueAsString (folder_entry (Some [])) ''file.folder'' = ''Root''
   \<and> getSubtitleText (folder_entry (Some [])) ''file.folder'' = None"
  by (simp add: folder_entry_def getPropertyValueAsString_def groupAccessorStep_def
      groupFrontmatterStep_def getSubtitleText_def startsWith_def)

subsection \<open>C9: the tag list\<close>

text \<open>
  C9 says that no tag occurs twice in the resolved list. The inline tags are added only
  when they are not yet listed, but the frontmatter tags are taken as they are, so a tag
  that the frontmatter lists twice stays twice.

  C9 as amended: the resolved tag list is the frontmatter tags as the frontmatter lists
  them, followed by the inline tags (without a leading \<open>#\<close>) that are not among the
  frontmatter tags, each once, in the order of their first occurrence; its elements are
  the frontmatter tags and the inline tags; and it has no duplicates when the frontmatter
  tags have none.
\<close>

theorem getTags_union:
  "getTags e =
     frontmatterTags e
     @ filter (\<lambda>t. t \<notin> set (frontmatterTags e))
         (first_seen (map (\<lambda>t. JStr (inlineTag t)) (cacheTags e)))
   \<and> set (getTags e) = set (frontmatterTags e) \<union> (\<lambda>t. JStr (inlineTag t)) ` set (cacheTags e)
   \<and> (distinct (frontmatterTags e) \<longrightarrow> distinct (getTags e))"
proof -
  let ?new = "filter (\<lambda>t. t \<notin> set (frontmatterTags e))
         (first_seen (map (\<lambda>t. JStr (inlineTag t)) (cacheTags e)))"
  have eq: "getTags e = frontmatterTags e @ ?new"
    by (simp add: getTags_foldl foldl_tagStep)
  have "distinct ?new"
    by (simp add: distinct_first_seen)
  then have d: "distinct (frontmatterTags e) \<longrightarrow> distinct (getTags e)"
    by (auto simp: eq)
  have s: "set (getTags e) = set (frontmatterTags e) \<union> (\<lambda>t. JStr (inlineTag t)) ` set (cacheTags e)"
    by (auto simp: eq set_first_seen)
  from eq s d show ?thesis by blast
qed

theorem getTags_union_witness:
  "frontmatterTags (tagged_entry (JArr [JStr ''a'', JStr ''b'']) [''#b'', ''c'', ''#c'']) = [JStr ''a'', JStr ''b'']
   \<and> distinct (frontmatterTags (tagged_entry (JArr [JStr ''a'', JStr ''b'']) [''#b'', ''c'', ''#c'']))
   \<and> getTags (tagged_entry (JArr [JStr ''a'', JStr ''b'']) [''#b'', ''c'', ''#c'']) = [JStr ''a'', JStr ''b'', JStr ''c'']
   \<and> distinct (getTags (tagged_entry (JArr [JStr ''a'', JStr ''b'']) [''#b'', ''c'', ''#c'']))
   \<and> getTags (tagged_entry (JArr [JStr ''a'', JStr ''b'']) [''#b'']) = [JStr ''a'', JStr ''b'']"
proof -
  have f: "frontmatterTags (tagged_entry (JArr [JStr ''a'', JStr ''b'']) ts) = [JStr ''a'', JStr ''b'']" for ts
    by (simp add: frontmatterTags_def frontmatterValue_def tagged_entry_def)
  have c: "cacheTags (tagged_entry v ts) = ts" for v ts
    by (simp add: cacheTags_def tagged_entry_def)
  have i: "inlineTag ''#b'' = ''b''" "inlineTag ''c'' = ''c''" "inlineTag ''#c'' = ''c''"
    by (simp_all add: inlineTag_def startsWith_def)
  from getTags_union[of "tagged_entry (JArr [JStr ''a'', JStr ''b'']) [''#b'', ''c'', ''#c'']"]
    getTags_union[of "tagged_entry (JArr [JStr ''a'', JStr ''b'']) [''#b'']"]
  show ?thesis
    by (simp add: f c i)
qed

theorem getTags_keeps_frontmatter_duplicates:
  "getTags (tagged_entry (JArr [JStr ''a'', JStr ''a'']) []) = [JStr ''a'', JStr ''a'']
   \<and> \<not> distinct (getTags (tagged_entry (JArr [JStr ''a'', JStr ''a'']) []))"
  by (simp add: getTags_def frontmatterTags_def frontmatterValue_def tagged_entry_def)

subsection \<open>C10: a group key is never empty\<close>

text \<open>
  C10: \<open>valueToGroupString\<close> never returns the empty string, whatever the value; null,
  undefined, the empty string, the empty array and an object whose string is empty give
  \<open>None\<close>; and stripping the inline references of a non-empty string leaves a non-empty
  string, which is the key of that string.
\<close>

theorem valueToGroupString_nonempty:
  "valueToGroupString v \<noteq> []
   \<and> valueToGroupString JNull = ''None''
   \<and> valueToGroupString JUndefined = ''None''
   \<and> valueToGroupString (JStr []) = ''None''
   \<and> valueToGroupString (JArr []) = ''None''
   \<and> valueToGroupString (JObj []) = ''None''
   \<and> (s \<noteq> [] \<longrightarrow> stripWikilinks s \<noteq> [] \<and> valueToGroupString (JStr s) = stripWikilinks s)"
proof -
  have ne: "valueToGroupString v \<noteq> []"
  proof (cases v)
    case JNull
    then show ?thesis by (simp add: valueToGroupString.simps)
  next
    case JUndefined
    then show ?thesis by (simp add: valueToGroupString.simps)
  next
    case (JBool b)
    then show ?thesis by (simp add: valueToGroupString.simps)
  next
    case (JNum n)
    then show ?thesis by (simp add: valueToGroupString.simps numberToString_nonempty)
  next
    case (JStr s)
    then show ?thesis by (simp add: valueToGroupString.simps Let_def)
  next
    case (JArr vs)
    then have "typeof v = TObject" "v \<noteq> JNull" by simp_all
    then show ?thesis
      by (simp add: valueToGroupString_object stripWikilinks_nonempty)
  next
    case (JObj s)
    then have "typeof v = TObject" "v \<noteq> JNull" by simp_all
    then show ?thesis
      by (simp add: valueToGroupString_object stripWikilinks_nonempty)
  qed
  have str: "stripWikilinks s \<noteq> [] \<and> valueToGroupString (JStr s) = stripWikilinks s" if "s \<noteq> []"
    using stripWikilinks_nonempty[OF that] by (simp add: valueToGroupString.simps Let_def)
  have "valueToGroupString JNull = ''None''" "valueToGroupString JUndefined = ''None''"
    "valueToGroupString (JStr []) = ''None''" "valueToGroupString (JArr []) = ''None''"
    "valueToGroupString (JObj []) = ''None''"
    by (simp_all add: valueToGroupString.simps)
  with ne str show ?thesis by blast
qed

theorem valueToGroupString_nonempty_witness:
  "''[[a|b]]'' \<noteq> [] \<and> stripWikilinks ''[[a|b]]'' = ''b''
   \<and> valueToGroupString (JStr ''[[a|b]]'') = ''b''
   \<and> valueToGroupString (JArr [JStr [], JNull]) = '',''
   \<and> valueToGroupString (JArr [JStr [], JNull]) \<noteq> []"
proof -
  have s: "stripWikilinks ''[[a|b]]'' = ''b''" by code_simp
  have a: "valueToGroupString (JArr [JStr [], JNull]) = '',''" by code_simp
  from valueToGroupString_nonempty[of "JArr [JStr [], JNull]" "''[[a|b]]''"] s a
  show ?thesis by simp
qed

end
